theory Spec2Isabelle
  imports Complex_Main "HOL-Library.AList" "HOL-Library.Sublist"
begin

section \<open>Python strings, slices and dictionaries\<close>

text \<open>
  A Python \<open>str\<close> is modelled as a \<^typ>\<open>string\<close>; one \<^typ>\<open>char\<close> stands for one code
  point below 256, so \<^const>\<open>length\<close> is Python's \<open>len\<close> on such text.  Python integers are
  \<^typ>\<open>int\<close>.
\<close>

definition isspace :: "char \<Rightarrow> bool" where
  \<comment> \<open>\<open>str.isspace\<close> and the regular expression class \<open>\s\<close> on code points below 256\<close>
  "isspace c = ((of_char c :: nat) \<in> {9, 10, 11, 12, 13, 28, 29, 30, 31, 32, 133, 160})"

definition strip :: "string \<Rightarrow> string" where
  \<comment> \<open>\<open>s.strip()\<close>\<close>
  "strip s = rev (dropWhile isspace (rev (dropWhile isspace s)))"

definition py_bound :: "nat \<Rightarrow> int \<Rightarrow> nat" where
  \<comment> \<open>how a slice bound is read: a negative bound counts from the end, then it is clamped\<close>
  "py_bound n i = (if i < 0 then nat (max 0 (int n + i)) else min n (nat i))"

definition py_slice :: "'a list \<Rightarrow> int \<Rightarrow> int \<Rightarrow> 'a list" where
  \<comment> \<open>\<open>xs[a:b]\<close>\<close>
  "py_slice xs a b =
     (let lo = py_bound (length xs) a; hi = py_bound (length xs) b
      in take (hi - lo) (drop lo xs))"

definition newline :: char where
  "newline = CHR 0x0A"

section \<open>pdf\_processor.py\<close>

subsection \<open>extract\_text\_from\_pdf\<close>

text \<open>
  The document is the list of the texts \<open>page.get_text()\<close> returns, page by page.  The
  optional OCR fallback is a parameter: \<open>ocr page_num\<close> is \<open>Some t\<close> when OCR is installed
  and delivers the text \<open>t\<close> for that page, and \<open>None\<close> when it is not installed, finds no
  image or raises (the source then keeps the empty page text).
\<close>

definition page_text_of :: "(int \<Rightarrow> string option) \<Rightarrow> int \<Rightarrow> string \<Rightarrow> string" where
  "page_text_of ocr page_num raw =
     (let page_text = strip raw
      in if page_text = [] then (case ocr page_num of Some t \<Rightarrow> t | None \<Rightarrow> [])
         else page_text)"

definition map_page_chars :: "(int \<rightharpoonup> int) \<Rightarrow> int \<Rightarrow> int \<Rightarrow> nat \<Rightarrow> (int \<rightharpoonup> int)" where
  \<comment> \<open>\<open>for i in range(len(page_text)): page_mapping[current_pos + i] = page_num\<close>\<close>
  "map_page_chars page_mapping current_pos page_num len =
     fold (\<lambda>i m. m(current_pos + int i \<mapsto> page_num)) [0..<len] page_mapping"

fun extract_loop ::
  "(int \<Rightarrow> string option) \<Rightarrow> int \<Rightarrow> string list \<Rightarrow> string \<times> (int \<rightharpoonup> int) \<times> int
     \<Rightarrow> string \<times> (int \<rightharpoonup> int) \<times> int" where
  "extract_loop ocr page_num [] s = s"
| "extract_loop ocr page_num (raw # doc) (full_text, page_mapping, current_pos) =
     (let page_text = page_text_of ocr page_num raw
      in extract_loop ocr (page_num + 1) doc
           (full_text @ page_text @ [newline, newline],
            map_page_chars page_mapping current_pos page_num (length page_text),
            current_pos + int (length page_text) + 2))"

definition extract_text_from_pdf ::
  "(int \<Rightarrow> string option) \<Rightarrow> string list \<Rightarrow> string \<times> (int \<rightharpoonup> int)" where
  "extract_text_from_pdf ocr doc =
     (case extract_loop ocr 1 doc ([], Map.empty, 0) of
        (full_text, page_mapping, current_pos) \<Rightarrow> (full_text, page_mapping))"

subsection \<open>chunk\_text\<close>

definition is_terminal :: "char \<Rightarrow> bool" where
  \<comment> \<open>the class \<open>[.!?]\<close>\<close>
  "is_terminal c = (c = CHR ''.'' \<or> c = CHR ''!'' \<or> c = CHR ''?'')"

function finditer :: "nat \<Rightarrow> string \<Rightarrow> (nat \<times> nat) list" where
  \<comment> \<open>the spans of \<open>re.finditer\<close> for \<open>([.!?]\s+)\<close>, scanning from offset \<open>i\<close>: a match is one
      terminal character and the longest run of whitespace after it, and the scan resumes
      at the end of the match\<close>
  "finditer i [] = []"
| "finditer i [c] = []"
| "finditer i (c # d # cs) =
     (if is_terminal c \<and> isspace d
      then (i, i + 1 + length (takeWhile isspace (d # cs)))
             # finditer (i + 1 + length (takeWhile isspace (d # cs))) (dropWhile isspace (d # cs))
      else finditer (i + 1) (d # cs))"
  by pat_completeness auto
termination
  by (relation "measure (\<lambda>(i, s). length s)")
     (auto simp: less_Suc_eq_le intro: le_trans [OF length_dropWhile_le])

definition int_two_fifths :: "int \<Rightarrow> int" where
  \<comment> \<open>\<open>int(chunk_size * 0.4)\<close>: the product is rounded towards zero.  The double nearest to
      0.4 lies just above it, so for the sizes a text can have the result is the exact
      two fifths, rounded towards zero.\<close>
  "int_two_fifths chunk_size =
     (if 0 \<le> chunk_size then (2 * chunk_size) div 5 else - ((2 * (- chunk_size)) div 5))"

definition chunk_end :: "string \<Rightarrow> int \<Rightarrow> int \<Rightarrow> int" where
  \<comment> \<open>the value of \<open>end\<close> once lines 63 to 76 have run\<close>
  "chunk_end text chunk_size start =
     (let n = int (length text); end0 = start + chunk_size
      in if end0 < n
         then (let search_start = max start (end0 - 120);
                   snippet = py_slice text search_start (end0 + 1);
                   m = finditer 0 snippet
               in if m \<noteq> []
                  then (let new_end = search_start + int (snd (last m))
                        in if new_end - start > int_two_fifths chunk_size then new_end else end0)
                  else end0)
         else n)"

record chunk =
  c_text :: string
  c_page :: int
  c_start_pos :: int
  c_end_pos :: int
  c_tokens :: nat

fun split_count :: "string \<Rightarrow> nat" where
  \<comment> \<open>\<open>len(s.split())\<close>: the number of maximal runs of characters that are not whitespace\<close>
  "split_count [] = 0"
| "split_count [c] = (if isspace c then 0 else 1)"
| "split_count (c # d # cs) =
     (if \<not> isspace c \<and> isspace d then 1 else 0) + split_count (d # cs)"

definition emit_chunk :: "string \<Rightarrow> (int \<rightharpoonup> int) \<Rightarrow> int \<Rightarrow> int \<Rightarrow> chunk list \<Rightarrow> chunk list" where
  \<comment> \<open>lines 78 to 89: the chunk is appended unless its stripped text is empty\<close>
  "emit_chunk text page_mapping start end1 chunks =
     (let chunk_txt = strip (py_slice text start end1)
      in if chunk_txt \<noteq> []
         then (let mid = start + (end1 - start) div 2;
                   page_num = (case page_mapping mid of Some p \<Rightarrow> p | None \<Rightarrow> 1)
               in chunks @ [\<lparr>c_text = chunk_txt, c_page = page_num, c_start_pos = start,
                             c_end_pos = end1, c_tokens = split_count chunk_txt\<rparr>])
         else chunks)"

partial_function (option) chunk_loop ::
  "string \<Rightarrow> (int \<rightharpoonup> int) \<Rightarrow> int \<Rightarrow> int \<Rightarrow> int \<Rightarrow> chunk list \<Rightarrow> chunk list option" where
  \<comment> \<open>the \<open>while start < n\<close> loop; \<open>None\<close> stands for a run that never leaves the loop\<close>
  "chunk_loop text page_mapping chunk_size overlap start chunks =
     (if start < int (length text)
      then (let end1 = chunk_end text chunk_size start;
                chunks1 = emit_chunk text page_mapping start end1 chunks
            in if end1 \<ge> int (length text) then Some chunks1
               else chunk_loop text page_mapping chunk_size overlap (end1 - overlap) chunks1)
      else Some chunks)"

declare chunk_loop.simps [code]

definition chunk_text :: "string \<Rightarrow> (int \<rightharpoonup> int) \<Rightarrow> int \<Rightarrow> int \<Rightarrow> chunk list option" where
  "chunk_text text page_mapping chunk_size overlap =
     chunk_loop text page_mapping chunk_size overlap 0 []"

section \<open>vector\_store.py\<close>

subsection \<open>Chunk dictionaries\<close>

text \<open>
  A chunk is a Python dictionary with string keys.  It is an association list in insertion
  order whose keys are looked up with \<^const>\<open>map_of\<close>; storing under a key that is absent
  appends the entry (\<^const>\<open>AList.update\<close>).  The values a chunk holds are strings,
  integers and \<open>None\<close>.
\<close>

datatype pyval = PStr string | PInt int | PNone

type_synonym pydict = "(string \<times> pyval) list"

datatype error = KeyError string | TypeError | IndexError | LibraryError string

definition dict_get :: "pydict \<Rightarrow> string \<Rightarrow> pyval \<Rightarrow> pyval" where
  \<comment> \<open>\<open>d.get(k, default)\<close>\<close>
  "dict_get d k dflt = (case map_of d k of Some v \<Rightarrow> v | None \<Rightarrow> dflt)"

definition dict_item :: "pydict \<Rightarrow> string \<Rightarrow> error + pyval" where
  \<comment> \<open>\<open>d[k]\<close>\<close>
  "dict_item d k = (case map_of d k of Some v \<Rightarrow> Inr v | None \<Rightarrow> Inl (KeyError k))"

definition py_index :: "'a list \<Rightarrow> int \<Rightarrow> error + 'a" where
  \<comment> \<open>\<open>xs[i]\<close>: a negative index counts from the end\<close>
  "py_index xs i =
     (let n = int (length xs)
      in if 0 \<le> i \<and> i < n then Inr (xs ! nat i)
         else if - n \<le> i \<and> i < 0 then Inr (xs ! nat (n + i))
         else Inl IndexError)"

definition digit :: "nat \<Rightarrow> char" where
  "digit d = ''0123456789'' ! d"

function str_nat :: "nat \<Rightarrow> string" where
  "str_nat n = (if n < 10 then [digit n] else str_nat (n div 10) @ [digit (n mod 10)])"
  by pat_completeness auto
termination
  by (relation "measure id") auto

definition py_str :: "pyval \<Rightarrow> string" where
  \<comment> \<open>how an f-string renders a value\<close>
  "py_str v =
     (case v of
        PStr s \<Rightarrow> s
      | PInt i \<Rightarrow> (if i < 0 then CHR ''-'' # str_nat (nat (- i)) else str_nat (nat i))
      | PNone \<Rightarrow> ''None'')"

subsection \<open>SimpleLRUCache\<close>

text \<open>The \<open>OrderedDict\<close> is an association list, oldest entry first.\<close>

record ('k, 'v) lru_cache =
  capacity :: int
  data :: "('k \<times> 'v) list"

definition new_cache :: "int \<Rightarrow> ('k, 'v) lru_cache" where
  "new_cache cap = \<lparr>capacity = cap, data = []\<rparr>"

definition move_to_end :: "('k \<times> 'v) list \<Rightarrow> 'k \<Rightarrow> ('k \<times> 'v) list" where
  \<comment> \<open>only called on a key that is present\<close>
  "move_to_end d key =
     (case map_of d key of
        Some v \<Rightarrow> filter (\<lambda>p. fst p \<noteq> key) d @ [(key, v)]
      | None \<Rightarrow> d)"

definition lru_get :: "('k, 'v) lru_cache \<Rightarrow> 'k \<Rightarrow> 'v option \<times> ('k, 'v) lru_cache" where
  "lru_get c key =
     (case map_of (data c) key of
        Some v \<Rightarrow> (Some v, c\<lparr>data := move_to_end (data c) key\<rparr>)
      | None \<Rightarrow> (None, c))"

definition lru_set :: "('k, 'v) lru_cache \<Rightarrow> 'k \<Rightarrow> 'v \<Rightarrow> ('k, 'v) lru_cache" where
  "lru_set c key val =
     (let d1 = AList.update key val (data c);
          d2 = move_to_end d1 key;
          d3 = (if int (length d2) > capacity c then tl d2 else d2)
      in c\<lparr>data := d3\<rparr>)"

subsection \<open>VectorStore\<close>

text \<open>
  The sentence-transformer model, the numeric normalisation of the embedding rows, the
  FAISS index and SHA-256 are parameters of the model.  \<open>encode\<close> is
  \<open>self.model.encode(...)\<close> followed by the cast to \<open>float32\<close>; \<open>normalize\<close> is
  \<open>self._normalize\<close>; \<open>index_add embs\<close> is \<open>index.add(embs)\<close> on a fresh index, giving the
  rows the index then holds; \<open>index_search rows q k\<close> is \<open>IndexFlatIP.search(q, k)\<close> on an
  index holding \<open>rows\<close>, returning the rows \<open>D[0]\<close> and \<open>I[0]\<close>.  Each of the four may
  raise.  Scores are real numbers.  The FAISS index is represented by the rows it holds;
  \<open>None\<close> is the index that was never built, \<open>Some []\<close> a fresh index without rows.
\<close>

record 'v env =
  encode :: "pyval list \<Rightarrow> error + 'v list"
  normalize :: "'v list \<Rightarrow> error + 'v list"
  index_add :: "'v list \<Rightarrow> error + 'v list"
  index_search :: "'v list \<Rightarrow> 'v list \<Rightarrow> int \<Rightarrow> error + (real list \<times> int list)"
  sha256_hex :: "string \<Rightarrow> string"

type_synonym search_result = "pydict \<times> real"

record 'v vector_store =
  index :: "'v list option"
  chunks :: "pydict list"
  embeddings :: "'v list option"
  cache :: "(string \<times> int, search_result list) lru_cache"

definition new_store :: "'v vector_store" where
  \<comment> \<open>\<open>VectorStore.__init__\<close>\<close>
  "new_store = \<lparr>index = None, chunks = [], embeddings = None, cache = new_cache 256\<rparr>"

definition ensure_document :: "pydict \<Rightarrow> pydict" where
  \<comment> \<open>lines 49 and 50\<close>
  "ensure_document c =
     (if map_of c ''document'' = None
      then AList.update ''document'' (dict_get c ''doc'' (PStr ''Unknown'')) c
      else c)"

fun item_texts :: "pydict list \<Rightarrow> error + pyval list" where
  \<comment> \<open>\<open>[c['text'] for c in chunks]\<close>\<close>
  "item_texts [] = Inr []"
| "item_texts (c # cs) =
     (case dict_item c ''text'' of
        Inl e \<Rightarrow> Inl e
      | Inr v \<Rightarrow> (case item_texts cs of Inl e \<Rightarrow> Inl e | Inr vs \<Rightarrow> Inr (v # vs)))"

definition create_from_chunks ::
  "'v env \<Rightarrow> 'v vector_store \<Rightarrow> pydict list \<Rightarrow> (error + unit) \<times> 'v vector_store" where
  \<comment> \<open>The caller's list object becomes \<open>self.chunks\<close>, its dictionaries updated in place:
      \<open>chunks\<close> of the returned store is what the caller's list holds after the call.
      Line 59 installs a fresh index before line 60 adds the rows to it.\<close>
  "create_from_chunks env st cs =
     (let st1 = st\<lparr>chunks := map ensure_document cs\<rparr>
      in case item_texts (chunks st1) of
           Inl e \<Rightarrow> (Inl e, st1)
         | Inr texts \<Rightarrow>
             (case encode env texts of
                Inl e \<Rightarrow> (Inl e, st1)
              | Inr embs \<Rightarrow>
                  (case normalize env embs of
                     Inl e \<Rightarrow> (Inl e, st1)
                   | Inr embs1 \<Rightarrow>
                       (let st2 = st1\<lparr>embeddings := Some embs1, index := Some []\<rparr>
                        in case index_add env embs1 of
                             Inl e \<Rightarrow> (Inl e, st2)
                           | Inr rows \<Rightarrow> (Inr (), st2\<lparr>index := Some rows\<rparr>)))))"

fun collect_results :: "pydict list \<Rightarrow> (real \<times> int) list \<Rightarrow> error + search_result list" where
  \<comment> \<open>lines 79 to 82\<close>
  "collect_results cs [] = Inr []"
| "collect_results cs ((dis, idx) # hits) =
     (if idx < int (length cs)
      then (case py_index cs idx of
              Inl e \<Rightarrow> Inl e
            | Inr c \<Rightarrow>
                (case collect_results cs hits of
                   Inl e \<Rightarrow> Inl e
                 | Inr rs \<Rightarrow> Inr ((c, dis) # rs)))
      else collect_results cs hits)"

definition fresh_results ::
  "'v env \<Rightarrow> 'v list \<Rightarrow> pydict list \<Rightarrow> string \<Rightarrow> int \<Rightarrow> error + search_result list" where
  \<comment> \<open>lines 75 to 82: the query is embedded, the index is asked, the hits are collected\<close>
  "fresh_results env embs cs query k =
     (case encode env [PStr query] of
        Inl e \<Rightarrow> Inl e
      | Inr q \<Rightarrow>
          (case normalize env q of
             Inl e \<Rightarrow> Inl e
           | Inr q_emb \<Rightarrow>
               (case index_search env embs q_emb (min k (int (length cs))) of
                  Inl e \<Rightarrow> Inl e
                | Inr (D, I) \<Rightarrow> collect_results cs (zip D I))))"

definition search ::
  "'v env \<Rightarrow> 'v vector_store \<Rightarrow> string \<Rightarrow> int
     \<Rightarrow> (error + search_result list) \<times> 'v vector_store" where
  \<comment> \<open>a cached value is returned when it is truthy, that is a list that is not empty\<close>
  "search env st query k =
     (case index st of
        None \<Rightarrow> (Inr [], st)
      | Some embs \<Rightarrow>
          if chunks st = [] then (Inr [], st)
          else
            (let key = sha256_hex env query;
                 got = lru_get (cache st) (key, k);
                 st1 = st\<lparr>cache := snd got\<rparr>
             in case fst got of
                  Some (r # rs) \<Rightarrow> (Inr (r # rs), st1)
                | _ \<Rightarrow>
                    (case fresh_results env embs (chunks st) query k of
                       Inl e \<Rightarrow> (Inl e, st1)
                     | Inr results \<Rightarrow>
                         (Inr results,
                          st1\<lparr>cache := lru_set (cache st1) (key, k) results\<rparr>))))"

definition clear :: "'v vector_store \<Rightarrow> 'v vector_store" where
  "clear st = st\<lparr>index := None, chunks := [], embeddings := None, cache := new_cache 256\<rparr>"

subsection \<open>get\_context\_for\_query\<close>

record citation =
  document :: pyval
  page :: pyval
  cit_text :: string
  relevance_score :: real

definition text_of :: "pydict \<Rightarrow> string" where
  \<comment> \<open>\<open>chunk.get('text', '')\<close> for a text that is a string\<close>
  "text_of c = (case dict_get c ''text'' (PStr []) of PStr s \<Rightarrow> s | _ \<Rightarrow> [])"

definition cite :: "search_result \<Rightarrow> citation" where
  \<comment> \<open>lines 104 to 109\<close>
  "cite r =
     \<lparr>document = dict_get (fst r) ''document'' (PStr ''Unknown''),
      page = dict_get (fst r) ''page'' PNone,
      cit_text = py_slice (text_of (fst r)) 0 800,
      relevance_score = snd r\<rparr>"

definition label :: "pydict \<Rightarrow> string" where
  \<comment> \<open>the prefix of a context part, up to and including the line break (line 103)\<close>
  "label c =
     ''['' @ py_str (dict_get c ''document'' (PStr ''doc'')) @ '' - Page ''
       @ py_str (dict_get c ''page'' (PStr ''?'')) @ '']'' @ [newline]"

definition marker :: string where
  "marker = ''...''"

definition clip :: "int \<Rightarrow> int \<Rightarrow> string \<Rightarrow> string" where
  \<comment> \<open>\<open>add_txt\<close> once lines 99 to 102 have run\<close>
  "clip max_context_length cur_len txt =
     (if cur_len + int (length txt) > max_context_length
      then (let remaining = max_context_length - cur_len
            in py_slice txt 0 (max 0 remaining) @ (if remaining > 3 then marker else []))
      else txt)"

fun assemble ::
  "search_result list \<Rightarrow> int \<Rightarrow> string list \<Rightarrow> citation list \<Rightarrow> int
     \<Rightarrow> error + (string list \<times> citation list \<times> int)" where
  \<comment> \<open>the loop of lines 97 to 112, from the state \<open>(context_parts, sources, cur_len)\<close>\<close>
  "assemble [] max_context_length context_parts sources cur_len =
     Inr (context_parts, sources, cur_len)"
| "assemble (r # results) max_context_length context_parts sources cur_len =
     (case dict_item (fst r) ''text'' of
        Inl e \<Rightarrow> Inl e
      | Inr v \<Rightarrow>
          (case v of
             PStr txt \<Rightarrow>
               (let add_txt = clip max_context_length cur_len txt;
                    context_parts1 = context_parts @ [label (fst r) @ add_txt];
                    sources1 = sources @ [cite r];
                    cur_len1 = cur_len + int (length add_txt)
                in if cur_len1 \<ge> max_context_length
                   then Inr (context_parts1, sources1, cur_len1)
                   else assemble results max_context_length context_parts1 sources1 cur_len1)
           | _ \<Rightarrow> Inl TypeError))"

definition separator :: string where
  "separator = [newline, newline] @ ''---'' @ [newline, newline]"

fun join :: "string \<Rightarrow> string list \<Rightarrow> string" where
  \<comment> \<open>\<open>sep.join(parts)\<close>\<close>
  "join sep [] = []"
| "join sep [p] = p"
| "join sep (p # q # ps) = p @ sep @ join sep (q # ps)"

definition build_context :: "search_result list \<Rightarrow> int \<Rightarrow> error + (string \<times> citation list)" where
  \<comment> \<open>lines 91 to 115, on the results of the search\<close>
  "build_context results max_context_length =
     (if results = [] then Inr ([], [])
      else (case assemble results max_context_length [] [] 0 of
              Inl e \<Rightarrow> Inl e
            | Inr (context_parts, sources, cur_len) \<Rightarrow>
                Inr (join separator context_parts, sources)))"

definition get_context_for_query ::
  "'v env \<Rightarrow> 'v vector_store \<Rightarrow> string \<Rightarrow> int \<Rightarrow> int
     \<Rightarrow> (error + (string \<times> citation list)) \<times> 'v vector_store" where
  "get_context_for_query env st query k max_context_length =
     (case search env st query k of
        (Inl e, st1) \<Rightarrow> (Inl e, st1)
      | (Inr results, st1) \<Rightarrow> (build_context results max_context_length, st1))"

subsection \<open>A concrete environment\<close>

text \<open>
  A stand-in for the external libraries, used to run the model on concrete inputs: an
  embedding carries no information, and the index ranks the rows it holds in insertion
  order, with the scores \<open>1\<close>, \<open>0.9\<close>, \<open>0.8\<close> and so on.  The hash is the identity.
\<close>

definition demo_env :: "unit env" where
  "demo_env =
     \<lparr>encode = (\<lambda>ts. Inr (map (\<lambda>_. ()) ts)),
      normalize = Inr,
      index_add = Inr,
      index_search = (\<lambda>embs q k.
         Inr (map (\<lambda>i. 1 - real i / 10) [0..<min (nat k) (length embs)],
              map int [0..<min (nat k) (length embs)])),
      sha256_hex = (\<lambda>s. s)\<rparr>"

section \<open>Notions used in the statements\<close>

subsection \<open>The page map in closed form\<close>

fun page_texts :: "(int \<Rightarrow> string option) \<Rightarrow> int \<Rightarrow> string list \<Rightarrow> string list" where
  \<comment> \<open>the value of \<open>page_text\<close> for each page, the first page having the number \<open>page_num\<close>\<close>
  "page_texts ocr page_num [] = []"
| "page_texts ocr page_num (raw # doc) =
     page_text_of ocr page_num raw # page_texts ocr (page_num + 1) doc"

definition flatten :: "string list \<Rightarrow> string" where
  \<comment> \<open>the page texts, each followed by the separator of two line breaks\<close>
  "flatten ts = concat (map (\<lambda>t. t @ [newline, newline]) ts)"

fun page_at :: "string list \<Rightarrow> int \<Rightarrow> int \<Rightarrow> int \<Rightarrow> int option" where
  \<comment> \<open>the page whose text covers \<open>offset\<close>, when the first text starts at \<open>pos\<close>\<close>
  "page_at [] page_num pos offset = None"
| "page_at (t # ts) page_num pos offset =
     (if pos \<le> offset \<and> offset < pos + int (length t) then Some page_num
      else page_at ts (page_num + 1) (pos + int (length t) + 2) offset)"

subsection \<open>Spans of the chunker\<close>

definition blank_span :: "string \<Rightarrow> int \<Rightarrow> int \<Rightarrow> bool" where
  \<comment> \<open>the span the loop forms from \<open>start\<close> strips to the empty string, so no chunk is emitted for it\<close>
  "blank_span t chunk_size start = (strip (py_slice t start (chunk_end t chunk_size start)) = [])"

definition follows :: "string \<Rightarrow> int \<Rightarrow> int \<Rightarrow> chunk \<Rightarrow> int \<Rightarrow> bool" where
  \<comment> \<open>\<open>start\<close> is where the loop goes after the chunk \<open>c\<close>, or a later start reached over a blank span\<close>
  "follows t chunk_size overlap c start =
     (start = c_end_pos c - overlap \<or> blank_span t chunk_size (c_end_pos c - overlap))"

definition loop_inv :: "string \<Rightarrow> int \<Rightarrow> int \<Rightarrow> int \<Rightarrow> chunk list \<Rightarrow> bool" where
  "loop_inv t chunk_size overlap start acc =
     (successively (\<lambda>c d. follows t chunk_size overlap c (c_start_pos d)) acc \<and>
      (acc = [] \<or> follows t chunk_size overlap (last acc) start))"

definition gap_text :: string where
  \<comment> \<open>ten letters, twenty blanks, ten letters\<close>
  "gap_text = ''aaaaaaaaaa                    bbbbbbbbbb''"

subsection \<open>Context parts\<close>

definition whole :: "search_result \<Rightarrow> string" where
  \<comment> \<open>the context part of a result whose text is not truncated\<close>
  "whole r = label (fst r) @ text_of (fst r)"

definition texts_len :: "search_result list \<Rightarrow> int" where
  "texts_len rs = (\<Sum>r\<leftarrow>rs. int (length (text_of (fst r))))"

definition labels_len :: "search_result list \<Rightarrow> int" where
  "labels_len rs = (\<Sum>r\<leftarrow>rs. int (length (label (fst r))))"

subsection \<open>Ranking of index hits\<close>

definition ranked :: "(real \<times> int) list \<Rightarrow> bool" where
  \<comment> \<open>hits \<open>(score, row)\<close> in order of decreasing score, equal scores in order of insertion\<close>
  "ranked hits = sorted_wrt (\<lambda>a b. fst a > fst b \<or> fst a = fst b \<and> snd a < snd b) hits"

subsection \<open>Concrete stores\<close>

definition abc_store :: "unit vector_store" where
  "abc_store = snd (create_from_chunks demo_env new_store
      [[(''text'', PStr ''abc''), (''page'', PInt 1)],
       [(''text'', PStr ''defgh''), (''page'', PInt 2)],
       [(''text'', PStr ''ij''), (''page'', PInt 3), (''doc'', PStr ''x.pdf'')]])"

definition abc_results :: "search_result list" where
  "abc_results =
     [([(''text'', PStr ''abc''), (''page'', PInt 1), (''document'', PStr ''Unknown'')], 1),
      ([(''text'', PStr ''defgh''), (''page'', PInt 2), (''document'', PStr ''Unknown'')], 9 / 10),
      ([(''text'', PStr ''ij''), (''page'', PInt 3), (''doc'', PStr ''x.pdf''),
        (''document'', PStr ''x.pdf'')], 8 / 10)]"

definition strict_env :: "unit env" where
  \<comment> \<open>as \<open>demo_env\<close>, but the normalisation raises on the empty batch\<close>
  "strict_env =
     demo_env\<lparr>normalize :=
       (\<lambda>vs. if vs = [] then Inl (LibraryError ''AxisError'') else Inr vs)\<rparr>"

definition one_store :: "unit vector_store" where
  "one_store = snd (create_from_chunks strict_env new_store [[(''text'', PStr ''abc'')]])"

definition three_pages :: "string list" where
  "three_pages = [''aaaa'', ''bbbb'', ''cc'']"

definition stale_store :: "unit vector_store" where
  \<comment> \<open>built from two chunks, searched once, then rebuilt from one other chunk\<close>
  "stale_store =
     snd (create_from_chunks demo_env
       (snd (search demo_env
          (snd (create_from_chunks demo_env new_store
             [[(''text'', PStr ''old one'')], [(''text'', PStr ''old two'')]]))
          ''q'' 2))
       [[(''text'', PStr ''new'')]])"

section \<open>Theorems about pdf\_processor.py\<close>

subsection \<open>chunk\_text can loop forever\<close>

text \<open>
  With \<open>chunk_size = 10\<close> and \<open>overlap = 5\<close> the text \<open>aaa. bbbbbbbbbbbbbbb\<close> has its only
  sentence boundary end at offset 5.  The snapped chunk is longer than
  \<open>int(10 * 0.4) = 4\<close>, so it is taken, and the next start is \<open>5 - 5 = 0\<close>: the loop is
  back in the state it started from, one chunk longer.
\<close>

lemma stuck_end: "chunk_end ''aaa. bbbbbbbbbbbbbbb'' 10 0 = 5"
  by code_simp

lemma stuck_loop:
  assumes "chunk_loop t pm chunk_size overlap start acc = Some y"
  shows "\<not> (t = ''aaa. bbbbbbbbbbbbbbb'' \<and> chunk_size = 10 \<and> overlap = 5 \<and> start = 0)"
proof (rule chunk_loop.raw_induct
    [where P = "\<lambda>t pm chunk_size overlap start acc y.
       \<not> (t = ''aaa. bbbbbbbbbbbbbbb'' \<and> chunk_size = 10 \<and> overlap = 5 \<and> start = 0)",
     OF _ assms])
  fix loop :: "string \<Rightarrow> (int \<rightharpoonup> int) \<Rightarrow> int \<Rightarrow> int \<Rightarrow> int \<Rightarrow> chunk list \<Rightarrow> chunk list option"
  fix tx pm and chunk_size overlap start :: int and acc y
  assume IH: "\<And>tx pm chunk_size overlap start acc y.
      loop tx pm chunk_size overlap start acc = Some y \<Longrightarrow>
      \<not> (tx = ''aaa. bbbbbbbbbbbbbbb'' \<and> chunk_size = 10 \<and> overlap = 5 \<and> start = 0)"
  assume step: "(if start < int (length tx)
      then let end1 = chunk_end tx chunk_size start;
               acc1 = emit_chunk tx pm start end1 acc
           in if int (length tx) \<le> end1 then Some acc1
              else loop tx pm chunk_size overlap (end1 - overlap) acc1
      else Some acc) = Some y"
  show "\<not> (tx = ''aaa. bbbbbbbbbbbbbbb'' \<and> chunk_size = 10 \<and> overlap = 5 \<and> start = 0)"
  proof
    assume a: "tx = ''aaa. bbbbbbbbbbbbbbb'' \<and> chunk_size = 10 \<and> overlap = 5 \<and> start = 0"
    have "loop tx pm chunk_size overlap 0 (emit_chunk tx pm 0 5 acc) = Some y"
      using step a by (simp add: stuck_end Let_def)
    from IH [OF this] a show False by simp
  qed
qed

text \<open>
  Claim C5 (forward progress and termination of \<open>chunk_text\<close> for every \<open>0 \<le> O < S\<close>) fails
  on the code: on the valid pair \<open>S = 10\<close>, \<open>O = 5\<close> and the text below the start position
  is not advanced and the call never returns.
\<close>

theorem chunk_text_never_returns:
  "chunk_text ''aaa. bbbbbbbbbbbbbbb'' Map.empty 10 5 = None"
proof (cases "chunk_text ''aaa. bbbbbbbbbbbbbbb'' Map.empty 10 5")
  case None then show ?thesis .
next
  case (Some y)
  then show ?thesis using stuck_loop [of "''aaa. bbbbbbbbbbbbbbb''" Map.empty 10 5 0 "[]" y]
    by (simp add: chunk_text_def)
qed

text \<open>
  Where the overlap is at most \<open>int(chunk_size * 0.4)\<close> and below the chunk size (as with the
  defaults 1000 and 200), every pass of the loop that does not leave it moves \<open>start\<close> forward,
  and \<open>chunk_text\<close> returns for every text.
\<close>

lemma chunk_end_progress:
  assumes "\<not> int (length t) \<le> chunk_end t chunk_size start"
      and "overlap \<le> int_two_fifths chunk_size" and "overlap < chunk_size"
  shows "start < chunk_end t chunk_size start - overlap"
  using assms by (auto simp: chunk_end_def Let_def split: if_splits)

lemma chunk_loop_returns:
  assumes "overlap \<le> int_two_fifths chunk_size" and "overlap < chunk_size"
  shows "\<exists>cs. chunk_loop t pm chunk_size overlap start acc = Some cs"
proof (induction "nat (int (length t) - start)" arbitrary: start acc rule: less_induct)
  case less
  show ?case
  proof (cases "start < int (length t)")
    case False
    then show ?thesis by (subst chunk_loop.simps) simp
  next
    case True
    show ?thesis
    proof (cases "int (length t) \<le> chunk_end t chunk_size start")
      case True
      with \<open>start < int (length t)\<close> show ?thesis
        by (subst chunk_loop.simps) (simp add: Let_def)
    next
      case False
      from chunk_end_progress [OF False assms]
      have "nat (int (length t) - (chunk_end t chunk_size start - overlap))
              < nat (int (length t) - start)"
        using \<open>start < int (length t)\<close> by simp
      from less [OF this] obtain cs where
        "chunk_loop t pm chunk_size overlap (chunk_end t chunk_size start - overlap)
           (emit_chunk t pm start (chunk_end t chunk_size start) acc) = Some cs"
        by blast
      with False \<open>start < int (length t)\<close> show ?thesis
        by (subst chunk_loop.simps) (simp add: Let_def)
    qed
  qed
qed

theorem chunk_text_returns:
  assumes "overlap \<le> int_two_fifths chunk_size" and "overlap < chunk_size"
  shows "\<exists>cs. chunk_text t pm chunk_size overlap = Some cs"
  unfolding chunk_text_def by (rule chunk_loop_returns [OF assms])

subsection \<open>The page map\<close>

lemma map_page_chars_apply:
  "map_page_chars pm pos p len offset =
     (if pos \<le> offset \<and> offset < pos + int len then Some p else pm offset)"
proof (induction len)
  case 0
  then show ?case by (auto simp: map_page_chars_def)
next
  case (Suc len)
  have "map_page_chars pm pos p (Suc len) = (map_page_chars pm pos p len)(pos + int len \<mapsto> p)"
    by (simp add: map_page_chars_def)
  with Suc show ?case by auto
qed

lemma page_at_lower: "page_at ts p pos offset = Some q \<Longrightarrow> pos \<le> offset"
proof (induction ts arbitrary: p pos)
  case Nil
  then show ?case by simp
next
  case (Cons t ts)
  show ?case
  proof (cases "pos \<le> offset \<and> offset < pos + int (length t)")
    case True
    then show ?thesis by simp
  next
    case False
    with Cons.prems have "page_at ts (p + 1) (pos + int (length t) + 2) offset = Some q"
      by simp
    from Cons.IH [OF this] show ?thesis by simp
  qed
qed

lemma extract_loop_closed:
  "extract_loop ocr p doc (full, pm, pos) =
     (full @ flatten (page_texts ocr p doc),
      (\<lambda>offset. case page_at (page_texts ocr p doc) p pos offset of
                   Some q \<Rightarrow> Some q | None \<Rightarrow> pm offset),
      pos + int (length (flatten (page_texts ocr p doc))))"
proof (induction doc arbitrary: p full pm pos)
  case Nil
  then show ?case by (simp add: flatten_def)
next
  case (Cons raw doc)
  have "\<And>offset. (case page_at (page_texts ocr (p + 1) doc) (p + 1)
                  (pos + int (length (page_text_of ocr p raw)) + 2) offset of
            Some q \<Rightarrow> Some q
          | None \<Rightarrow> map_page_chars pm pos p (length (page_text_of ocr p raw)) offset) =
        (case page_at (page_texts ocr p (raw # doc)) p pos offset of
            Some q \<Rightarrow> Some q | None \<Rightarrow> pm offset)"
    by (auto simp: map_page_chars_apply split: option.splits dest: page_at_lower)
  then show ?case
    by (simp add: Cons.IH Let_def flatten_def)
qed

lemma page_at_nth:
  assumes "j < length ts"
  shows "(\<forall>i < length (ts ! j).
            page_at ts p pos (pos + int (length (flatten (take j ts))) + int i) = Some (p + int j)) \<and>
         page_at ts p pos (pos + int (length (flatten (take j ts))) + int (length (ts ! j))) = None \<and>
         page_at ts p pos (pos + int (length (flatten (take j ts))) + int (length (ts ! j)) + 1) = None"
  using assms
proof (induction ts arbitrary: j p pos)
  case Nil
  then show ?case by simp
next
  case (Cons t ts)
  show ?case
  proof (cases j)
    case 0
    have "page_at ts (p + 1) (pos + int (length t) + 2) (pos + int (length t)) = None"
      using page_at_lower [of ts "p + 1" "pos + int (length t) + 2" "pos + int (length t)"]
      by (cases "page_at ts (p + 1) (pos + int (length t) + 2) (pos + int (length t))") auto
    moreover have "page_at ts (p + 1) (pos + int (length t) + 2) (pos + int (length t) + 1) = None"
      using page_at_lower [of ts "p + 1" "pos + int (length t) + 2" "pos + int (length t) + 1"]
      by (cases "page_at ts (p + 1) (pos + int (length t) + 2) (pos + int (length t) + 1)") auto
    ultimately show ?thesis using 0 by (simp add: flatten_def)
  next
    case (Suc j')
    with Cons.prems have j': "j' < length ts" by simp
    have shift: "pos + int (length (flatten (take j (t # ts)))) =
          (pos + int (length t) + 2) + int (length (flatten (take j' ts)))"
      using Suc by (simp add: flatten_def)
    from Cons.IH [OF j', of "p + 1" "pos + int (length t) + 2"] show ?thesis
      unfolding shift using Suc by (simp add: add.assoc)
  qed
qed

text \<open>
  What the page map holds.  The flattened text is the page texts, each followed by two line
  breaks.  The page map has a key for every offset of a page text's character and sends it
  to that page (pages are numbered from 1); the two separator offsets after every page are
  not keys of the map.
\<close>

theorem page_map_domain:
  assumes "extract_text_from_pdf ocr doc = (full_text, page_mapping)"
      and "j < length doc"
  shows "full_text = flatten (page_texts ocr 1 doc) \<and>
         (\<forall>i < length (page_texts ocr 1 doc ! j).
            page_mapping (int (length (flatten (take j (page_texts ocr 1 doc)))) + int i)
              = Some (1 + int j)) \<and>
         page_mapping (int (length (flatten (take j (page_texts ocr 1 doc))))
              + int (length (page_texts ocr 1 doc ! j))) = None \<and>
         page_mapping (int (length (flatten (take j (page_texts ocr 1 doc))))
              + int (length (page_texts ocr 1 doc ! j)) + 1) = None"
proof -
  have len: "length (page_texts ocr p doc) = length doc" for p
    by (induction doc arbitrary: p) auto
  from assms(1) have full: "full_text = flatten (page_texts ocr 1 doc)"
    and pm: "page_mapping = (\<lambda>offset. page_at (page_texts ocr 1 doc) 1 0 offset)"
    by (auto simp: extract_text_from_pdf_def extract_loop_closed split: option.splits)
  from assms(2) have "j < length (page_texts ocr 1 doc)" by (simp add: len)
  from page_at_nth [OF this, of 1 0] full show ?thesis
    unfolding pm by simp
qed

text \<open>
  The theorem at the two pages \<open>ab\<close> and \<open>cd\<close>: offsets 4 and 5 belong to page 2, the
  separator offsets 6 and 7 have no page.
\<close>

theorem page_map_domain_witness:
  "fst (extract_text_from_pdf (\<lambda>_. None) [''ab'', '' cd '']) = flatten [''ab'', ''cd''] \<and>
   snd (extract_text_from_pdf (\<lambda>_. None) [''ab'', '' cd '']) 4 = Some 2 \<and>
   snd (extract_text_from_pdf (\<lambda>_. None) [''ab'', '' cd '']) 5 = Some 2 \<and>
   snd (extract_text_from_pdf (\<lambda>_. None) [''ab'', '' cd '']) 6 = None \<and>
   snd (extract_text_from_pdf (\<lambda>_. None) [''ab'', '' cd '']) 7 = None"
proof -
  have pt: "page_texts (\<lambda>_. None) 1 [''ab'', '' cd ''] = [''ab'', ''cd'']"
    by (simp add: page_text_of_def strip_def isspace_def)
  have e: "extract_text_from_pdf (\<lambda>_. None) [''ab'', '' cd ''] =
      (fst (extract_text_from_pdf (\<lambda>_. None) [''ab'', '' cd '']),
       snd (extract_text_from_pdf (\<lambda>_. None) [''ab'', '' cd '']))"
    by simp
  have j: "1 < length [''ab'', '' cd '']" by simp
  from page_map_domain [OF e j, unfolded pt]
  have full: "fst (extract_text_from_pdf (\<lambda>_. None) [''ab'', '' cd '']) = flatten [''ab'', ''cd'']"
    and chars: "\<forall>i<2. snd (extract_text_from_pdf (\<lambda>_. None) [''ab'', '' cd '']) (4 + int i) = Some 2"
    and sep1: "snd (extract_text_from_pdf (\<lambda>_. None) [''ab'', '' cd '']) 6 = None"
    and sep2: "snd (extract_text_from_pdf (\<lambda>_. None) [''ab'', '' cd '']) 7 = None"
    by (simp_all add: flatten_def)
  from chars [rule_format, of 0] chars [rule_format, of 1]
  have "snd (extract_text_from_pdf (\<lambda>_. None) [''ab'', '' cd '']) 4 = Some 2"
    and "snd (extract_text_from_pdf (\<lambda>_. None) [''ab'', '' cd '']) 5 = Some 2"
    by simp_all
  with full sep1 sep2 show ?thesis by simp
qed

lemma three_pages_extract:
  "fst (extract_text_from_pdf (\<lambda>_. None) three_pages) = flatten three_pages \<and>
   snd (extract_text_from_pdf (\<lambda>_. None) three_pages) 12 = Some 3 \<and>
   snd (extract_text_from_pdf (\<lambda>_. None) three_pages) 13 = Some 3 \<and>
   snd (extract_text_from_pdf (\<lambda>_. None) three_pages) 14 = None"
  by (simp add: three_pages_def extract_text_from_pdf_def page_text_of_def strip_def
      isspace_def map_page_chars_def flatten_def)

text \<open>
  Claim C6 (the page map covers every offset of the flattened text, a separator offset
  belonging to the page before it) fails on the code.  For the pages \<open>aaaa\<close>, \<open>bbbb\<close> and
  \<open>cc\<close> the text of page 3 lies at the offsets 12 and 13, and offset 14, the first separator
  character after it, is not a key of the map.  Chunking with size 6 and no overlap, the
  chunk \<open>cc\<close> spans 12 to 16, its midpoint is 14, and the lookup with default 1 attributes
  the chunk to page 1.
\<close>

theorem separator_midpoint_gets_page_one:
  "fst (extract_text_from_pdf (\<lambda>_. None) three_pages) = flatten three_pages \<and>
   snd (extract_text_from_pdf (\<lambda>_. None) three_pages) 12 = Some 3 \<and>
   snd (extract_text_from_pdf (\<lambda>_. None) three_pages) 13 = Some 3 \<and>
   snd (extract_text_from_pdf (\<lambda>_. None) three_pages) 14 = None \<and>
   chunk_text (fst (extract_text_from_pdf (\<lambda>_. None) three_pages))
              (snd (extract_text_from_pdf (\<lambda>_. None) three_pages)) 6 0 =
     Some [\<lparr>c_text = ''aaaa'', c_page = 1, c_start_pos = 0, c_end_pos = 6, c_tokens = 1\<rparr>,
           \<lparr>c_text = ''bbbb'', c_page = 2, c_start_pos = 6, c_end_pos = 12, c_tokens = 1\<rparr>,
           \<lparr>c_text = ''cc'', c_page = 1, c_start_pos = 12, c_end_pos = 16, c_tokens = 1\<rparr>]"
proof -
  have "chunk_text (fst (extract_text_from_pdf (\<lambda>_. None) three_pages))
              (snd (extract_text_from_pdf (\<lambda>_. None) three_pages)) 6 0 =
     Some [\<lparr>c_text = ''aaaa'', c_page = 1, c_start_pos = 0, c_end_pos = 6, c_tokens = 1\<rparr>,
           \<lparr>c_text = ''bbbb'', c_page = 2, c_start_pos = 6, c_end_pos = 12, c_tokens = 1\<rparr>,
           \<lparr>c_text = ''cc'', c_page = 1, c_start_pos = 12, c_end_pos = 16, c_tokens = 1\<rparr>]"
    by code_simp
  with three_pages_extract show ?thesis by blast
qed

subsection \<open>Overlap of consecutive chunks\<close>

lemma successively_nth:
  "successively P xs \<Longrightarrow> Suc i < length xs \<Longrightarrow> P (xs ! i) (xs ! Suc i)"
proof (induction xs arbitrary: i)
  case Nil
  then show ?case by simp
next
  case (Cons x xs)
  show ?case
  proof (cases i)
    case 0
    with Cons.prems show ?thesis by (cases xs) auto
  next
    case (Suc j)
    with Cons.prems Cons.IH [of j] show ?thesis by (cases xs) auto
  qed
qed

lemma emit_chunk_cases:
  "emit_chunk t pm start e acc = acc \<and> strip (py_slice t start e) = [] \<or>
   (\<exists>c. emit_chunk t pm start e acc = acc @ [c] \<and> c_start_pos c = start \<and> c_end_pos c = e)"
  by (simp add: emit_chunk_def Let_def)

lemma loop_inv_step:
  assumes "loop_inv t chunk_size overlap start acc"
  shows "loop_inv t chunk_size overlap (chunk_end t chunk_size start - overlap)
           (emit_chunk t pm start (chunk_end t chunk_size start) acc)"
  using emit_chunk_cases [of t pm start "chunk_end t chunk_size start" acc] assms
  by (auto simp: loop_inv_def follows_def blank_span_def successively_append_iff)

lemma loop_inv_final:
  assumes "loop_inv t chunk_size overlap start acc"
  shows "successively (\<lambda>c d. follows t chunk_size overlap c (c_start_pos d))
           (emit_chunk t pm start (chunk_end t chunk_size start) acc)"
  using loop_inv_step [OF assms] by (simp add: loop_inv_def)

lemma chunk_loop_follows:
  assumes "chunk_loop t pm chunk_size overlap start acc = Some y"
  shows "loop_inv t chunk_size overlap start acc \<longrightarrow>
         successively (\<lambda>c d. follows t chunk_size overlap c (c_start_pos d)) y"
proof (rule chunk_loop.raw_induct
    [where P = "\<lambda>t pm chunk_size overlap start acc y.
       loop_inv t chunk_size overlap start acc \<longrightarrow>
         successively (\<lambda>c d. follows t chunk_size overlap c (c_start_pos d)) y",
     OF _ assms])
  fix loop :: "string \<Rightarrow> (int \<rightharpoonup> int) \<Rightarrow> int \<Rightarrow> int \<Rightarrow> int \<Rightarrow> chunk list \<Rightarrow> chunk list option"
  fix tx pm and chunk_size overlap start :: int and acc y
  assume IH: "\<And>tx pm chunk_size overlap start acc y.
      loop tx pm chunk_size overlap start acc = Some y \<Longrightarrow>
      loop_inv tx chunk_size overlap start acc \<longrightarrow>
        successively (\<lambda>c d. follows tx chunk_size overlap c (c_start_pos d)) y"
  assume step: "(if start < int (length tx)
      then let end1 = chunk_end tx chunk_size start;
               chunks1 = emit_chunk tx pm start end1 acc
           in if int (length tx) \<le> end1 then Some chunks1
              else loop tx pm chunk_size overlap (end1 - overlap) chunks1
      else Some acc) = Some y"
  show "loop_inv tx chunk_size overlap start acc \<longrightarrow>
        successively (\<lambda>c d. follows tx chunk_size overlap c (c_start_pos d)) y"
  proof
    assume inv: "loop_inv tx chunk_size overlap start acc"
    show "successively (\<lambda>c d. follows tx chunk_size overlap c (c_start_pos d)) y"
    proof (cases "start < int (length tx)")
      case False
      with step inv show ?thesis by (simp add: loop_inv_def)
    next
      case True
      show ?thesis
      proof (cases "int (length tx) \<le> chunk_end tx chunk_size start")
        case True
        with step \<open>start < int (length tx)\<close> loop_inv_final [OF inv, of pm]
        show ?thesis by (simp add: Let_def)
      next
        case False
        with step \<open>start < int (length tx)\<close>
        have "loop tx pm chunk_size overlap (chunk_end tx chunk_size start - overlap)
                (emit_chunk tx pm start (chunk_end tx chunk_size start) acc) = Some y"
          by (simp add: Let_def)
        from IH [OF this] loop_inv_step [OF inv, of pm] show ?thesis by simp
      qed
    qed
  qed
qed

lemma chunk_loop_spans:
  assumes "chunk_loop t pm chunk_size overlap start acc = Some y"
  shows "(\<forall>c \<in> set acc. c_end_pos c = chunk_end t chunk_size (c_start_pos c)) \<longrightarrow>
         (\<forall>c \<in> set y. c_end_pos c = chunk_end t chunk_size (c_start_pos c))"
proof (rule chunk_loop.raw_induct
    [where P = "\<lambda>t pm chunk_size overlap start acc y.
       (\<forall>c \<in> set acc. c_end_pos c = chunk_end t chunk_size (c_start_pos c)) \<longrightarrow>
         (\<forall>c \<in> set y. c_end_pos c = chunk_end t chunk_size (c_start_pos c))",
     OF _ assms])
  fix loop :: "string \<Rightarrow> (int \<rightharpoonup> int) \<Rightarrow> int \<Rightarrow> int \<Rightarrow> int \<Rightarrow> chunk list \<Rightarrow> chunk list option"
  fix tx pm and chunk_size overlap start :: int and acc y
  assume IH: "\<And>tx pm chunk_size overlap start acc y.
      loop tx pm chunk_size overlap start acc = Some y \<Longrightarrow>
      (\<forall>c \<in> set acc. c_end_pos c = chunk_end tx chunk_size (c_start_pos c)) \<longrightarrow>
         (\<forall>c \<in> set y. c_end_pos c = chunk_end tx chunk_size (c_start_pos c))"
  assume step: "(if start < int (length tx)
      then let end1 = chunk_end tx chunk_size start;
               chunks1 = emit_chunk tx pm start end1 acc
           in if int (length tx) \<le> end1 then Some chunks1
              else loop tx pm chunk_size overlap (end1 - overlap) chunks1
      else Some acc) = Some y"
  have emitted: "(\<forall>c \<in> set acc. c_end_pos c = chunk_end tx chunk_size (c_start_pos c)) \<Longrightarrow>
     (\<forall>c \<in> set (emit_chunk tx pm start (chunk_end tx chunk_size start) acc).
         c_end_pos c = chunk_end tx chunk_size (c_start_pos c))"
    using emit_chunk_cases [of tx pm start "chunk_end tx chunk_size start" acc] by auto
  show "(\<forall>c \<in> set acc. c_end_pos c = chunk_end tx chunk_size (c_start_pos c)) \<longrightarrow>
         (\<forall>c \<in> set y. c_end_pos c = chunk_end tx chunk_size (c_start_pos c))"
  proof
    assume inv: "\<forall>c \<in> set acc. c_end_pos c = chunk_end tx chunk_size (c_start_pos c)"
    show "\<forall>c \<in> set y. c_end_pos c = chunk_end tx chunk_size (c_start_pos c)"
    proof (cases "start < int (length tx)")
      case False
      with step inv show ?thesis by simp
    next
      case True
      show ?thesis
      proof (cases "int (length tx) \<le> chunk_end tx chunk_size start")
        case True
        with step \<open>start < int (length tx)\<close> emitted [OF inv]
        show ?thesis by (simp add: Let_def)
      next
        case False
        with step \<open>start < int (length tx)\<close>
        have "loop tx pm chunk_size overlap (chunk_end tx chunk_size start - overlap)
                (emit_chunk tx pm start (chunk_end tx chunk_size start) acc) = Some y"
          by (simp add: Let_def)
        from IH [OF this] emitted [OF inv] show ?thesis by simp
      qed
    qed
  qed
qed

text \<open>
  Claim C7, as amended.  Whenever \<open>chunk_text\<close> returns, every emitted chunk ends where the
  loop put the end of its span, and of two consecutive emitted chunks the second starts
  exactly \<open>overlap\<close> characters before the end of the first, unless the span the loop formed
  at that place was blank and so was dropped.
\<close>

theorem consecutive_chunks_overlap:
  assumes "chunk_text t pm chunk_size overlap = Some cs" and "Suc i < length cs"
  shows "c_end_pos (cs ! i) = chunk_end t chunk_size (c_start_pos (cs ! i)) \<and>
         (c_end_pos (cs ! i) - c_start_pos (cs ! Suc i) = overlap \<or>
          blank_span t chunk_size (c_end_pos (cs ! i) - overlap))"
proof -
  from assms(1) have run: "chunk_loop t pm chunk_size overlap 0 [] = Some cs"
    by (simp add: chunk_text_def)
  have "successively (\<lambda>c d. follows t chunk_size overlap c (c_start_pos d)) cs"
    using chunk_loop_follows [OF run] by (simp add: loop_inv_def)
  from successively_nth [OF this assms(2)]
  have "c_end_pos (cs ! i) - c_start_pos (cs ! Suc i) = overlap \<or>
          blank_span t chunk_size (c_end_pos (cs ! i) - overlap)"
    by (auto simp: follows_def)
  moreover have "cs ! i \<in> set cs" using assms(2) by simp
  with chunk_loop_spans [OF run]
  have "c_end_pos (cs ! i) = chunk_end t chunk_size (c_start_pos (cs ! i))" by simp
  ultimately show ?thesis by simp
qed

lemma gap_run: "chunk_text gap_text Map.empty 10 2 = Some
  [\<lparr>c_text = ''aaaaaaaaaa'', c_page = 1, c_start_pos = 0, c_end_pos = 10, c_tokens = 1\<rparr>,
   \<lparr>c_text = ''aa'', c_page = 1, c_start_pos = 8, c_end_pos = 18, c_tokens = 1\<rparr>,
   \<lparr>c_text = ''bbbb'', c_page = 1, c_start_pos = 24, c_end_pos = 34, c_tokens = 1\<rparr>,
   \<lparr>c_text = ''bbbbbbbb'', c_page = 1, c_start_pos = 32, c_end_pos = 40, c_tokens = 1\<rparr>]"
  by code_simp

text \<open>
  The theorem on \<open>gap_text\<close> with chunk size 10 and overlap 2: the first two chunks overlap
  by 2; after the second chunk (ending at 18) the span from 16 is blank, and the third
  chunk starts at 24.
\<close>

theorem consecutive_chunks_overlap_witness:
  "chunk_text gap_text Map.empty 10 2 \<noteq> None \<and>
   c_end_pos (the (chunk_text gap_text Map.empty 10 2) ! 1) = 18 \<and>
   c_start_pos (the (chunk_text gap_text Map.empty 10 2) ! 2) = 24 \<and>
   blank_span gap_text 10 16 \<and>
   c_end_pos (the (chunk_text gap_text Map.empty 10 2) ! 0)
     - c_start_pos (the (chunk_text gap_text Map.empty 10 2) ! 1) = 2"
proof -
  have b: "blank_span gap_text 10 16" by code_simp
  from consecutive_chunks_overlap [OF gap_run, of 0] consecutive_chunks_overlap [OF gap_run, of 1]
  show ?thesis using b by (simp add: gap_run)
qed

text \<open>
  Claim C7 as stated fails on the same input: the second and the third emitted chunk do not
  overlap by 2 characters (there is a gap of 6).
\<close>

theorem overlap_counterexample:
  "\<exists>cs. chunk_text gap_text Map.empty 10 2 = Some cs \<and>
     (\<exists>i. Suc i < length cs \<and> c_end_pos (cs ! i) - c_start_pos (cs ! Suc i) \<noteq> 2)"
proof -
  let ?cs = "[\<lparr>c_text = ''aaaaaaaaaa'', c_page = 1, c_start_pos = 0, c_end_pos = 10, c_tokens = 1\<rparr>,
   \<lparr>c_text = ''aa'', c_page = 1, c_start_pos = 8, c_end_pos = 18, c_tokens = 1\<rparr>,
   \<lparr>c_text = ''bbbb'', c_page = 1, c_start_pos = 24, c_end_pos = 34, c_tokens = 1\<rparr>,
   \<lparr>c_text = ''bbbbbbbb'', c_page = 1, c_start_pos = 32, c_end_pos = 40, c_tokens = 1::nat\<rparr>]"
  have "Suc 1 < length ?cs \<and> c_end_pos (?cs ! 1) - c_start_pos (?cs ! Suc 1) \<noteq> 2" by simp
  with gap_run show ?thesis by blast
qed

section \<open>Theorems about vector\_store.py\<close>

lemmas store_defs = create_from_chunks_def demo_env_def new_store_def new_cache_def
  ensure_document_def dict_get_def dict_item_def search_def fresh_results_def lru_get_def
  lru_set_def move_to_end_def py_index_def Let_def

subsection \<open>create\_from\_chunks\<close>

lemma map_of_update_other:
  "map_of (AList.update k v al) k' = (if k' = k then Some v else map_of al k')"
  by (simp add: update_conv')

text \<open>
  Claim C10.  After \<open>create_from_chunks\<close> the caller's list holds every input chunk with a
  \<open>document\<close> entry: a chunk without that key has it added, with the value of its \<open>doc\<close> key
  if it has one and \<open>Unknown\<close> otherwise; every other key of every chunk has the value it
  had, and a chunk that had the key is unchanged.  This holds whether or not the call
  raises afterwards.
\<close>

theorem document_key_inserted:
  "chunks (snd (create_from_chunks env st cs)) = map ensure_document cs \<and>
   (\<forall>c key. map_of (ensure_document c) key =
      (if key = ''document'' \<and> map_of c ''document'' = None
       then Some (case map_of c ''doc'' of Some v \<Rightarrow> v | None \<Rightarrow> PStr ''Unknown'')
       else map_of c key))"
proof -
  have "chunks (snd (create_from_chunks env st cs)) = map ensure_document cs"
    by (simp add: create_from_chunks_def Let_def split: sum.splits)
  moreover have "map_of (ensure_document c) key =
      (if key = ''document'' \<and> map_of c ''document'' = None
       then Some (case map_of c ''doc'' of Some v \<Rightarrow> v | None \<Rightarrow> PStr ''Unknown'')
       else map_of c key)" for c key
    by (auto simp: ensure_document_def map_of_update_other dict_get_def)
  ultimately show ?thesis by simp
qed

text \<open>
  Claim C4.  A store that was never built answers every search with the empty list, and
  every context request with the empty string and no citation; neither raises, and the
  store is unchanged.
\<close>

theorem search_unbuilt:
  "search env new_store q k = (Inr [], new_store) \<and>
   get_context_for_query env new_store q k B = (Inr ([], []), new_store)"
  by (simp add: search_def get_context_for_query_def build_context_def new_store_def)

text \<open>
  Claim C8, as amended.  The source has no \<open>EmptyCollectionError\<close>; the callers check for
  an empty chunk list before they build.  Called with no chunks, \<open>create_from_chunks\<close> first
  stores the empty chunk list.  Then a library call raises and the index is the one the
  store had, or \<open>index.add\<close> raises and the index is the fresh one without rows, or the
  libraries accept the empty batch and their index is installed.  In every case the store
  has no chunks, so every search returns the empty list, every context request returns the
  empty string and no citation, and neither raises.
\<close>

theorem create_from_no_chunks:
  "chunks (snd (create_from_chunks env st [])) = [] \<and>
   search env (snd (create_from_chunks env st [])) q k
     = (Inr [], snd (create_from_chunks env st [])) \<and>
   get_context_for_query env (snd (create_from_chunks env st [])) q k B
     = (Inr ([], []), snd (create_from_chunks env st [])) \<and>
   ((\<exists>e. fst (create_from_chunks env st []) = Inl e) \<and>
      index (snd (create_from_chunks env st [])) = index st \<or>
    (\<exists>e. fst (create_from_chunks env st []) = Inl e) \<and>
      index (snd (create_from_chunks env st [])) = Some [] \<or>
    fst (create_from_chunks env st []) = Inr () \<and>
      (\<exists>rows. index (snd (create_from_chunks env st [])) = Some rows))"
proof -
  have c: "chunks (snd (create_from_chunks env st [])) = []"
    by (simp add: create_from_chunks_def Let_def split: sum.splits)
  have s: "search env (snd (create_from_chunks env st [])) q k
     = (Inr [], snd (create_from_chunks env st []))"
    using c by (simp add: search_def split: option.splits)
  have g: "get_context_for_query env (snd (create_from_chunks env st [])) q k B
     = (Inr ([], []), snd (create_from_chunks env st []))"
    using s by (simp add: get_context_for_query_def build_context_def)
  have i: "(\<exists>e. fst (create_from_chunks env st []) = Inl e) \<and>
      index (snd (create_from_chunks env st [])) = index st \<or>
    (\<exists>e. fst (create_from_chunks env st []) = Inl e) \<and>
      index (snd (create_from_chunks env st [])) = Some [] \<or>
    fst (create_from_chunks env st []) = Inr () \<and>
      (\<exists>rows. index (snd (create_from_chunks env st [])) = Some rows)"
    by (simp add: create_from_chunks_def Let_def split: sum.splits)
  from c s g i show ?thesis by (intro conjI)
qed

text \<open>
  Claim C8 as stated fails.  With libraries that accept the empty batch, the call on a new
  store does not fail and leaves an index that is not \<open>None\<close>.  With a normalisation that
  raises on the empty batch (as \<open>numpy\<close> does on an array without a second axis), the call on
  a store built from one chunk fails with the library's error and keeps the index of the
  earlier build.
\<close>

theorem empty_build_counterexample:
  "\<not> ((\<exists>e. fst (create_from_chunks demo_env new_store []) = Inl e) \<or>
       index (snd (create_from_chunks demo_env new_store [])) = None) \<and>
   index one_store = Some [()] \<and>
   fst (create_from_chunks strict_env one_store []) = Inl (LibraryError ''AxisError'') \<and>
   index (snd (create_from_chunks strict_env one_store [])) = Some [()]"
  by (simp add: one_store_def strict_env_def store_defs)

subsection \<open>The query cache\<close>

lemma stale_store_eval:
  "index stale_store = Some [()] \<and>
   chunks stale_store = [[(''text'', PStr ''new''), (''document'', PStr ''Unknown'')]] \<and>
   fst (search demo_env stale_store ''q'' 2) =
     Inr [([(''text'', PStr ''old one''), (''document'', PStr ''Unknown'')], 1),
          ([(''text'', PStr ''old two''), (''document'', PStr ''Unknown'')], 9 / 10)]"
  by (simp add: stale_store_def store_defs upt_conv_Cons)

text \<open>
  Claim C2 (a rebuild clears the cache) fails on the code: \<open>create_from_chunks\<close> does not
  touch the cache.  A store built from two chunks and searched once for \<open>q\<close> with \<open>k = 2\<close>,
  then rebuilt from one new chunk, answers the same search with the two chunks of the old
  index, where a store freshly built from the new chunk answers with the new chunk.
\<close>

theorem rebuild_returns_stale_results:
  "chunks stale_store = [[(''text'', PStr ''new''), (''document'', PStr ''Unknown'')]] \<and>
   fst (search demo_env stale_store ''q'' 2) =
     Inr [([(''text'', PStr ''old one''), (''document'', PStr ''Unknown'')], 1),
          ([(''text'', PStr ''old two''), (''document'', PStr ''Unknown'')], 9 / 10)] \<and>
   fst (search demo_env (snd (create_from_chunks demo_env new_store [[(''text'', PStr ''new'')]]))
          ''q'' 2) =
     Inr [([(''text'', PStr ''new''), (''document'', PStr ''Unknown'')], 1)]"
proof -
  have "fst (search demo_env
          (snd (create_from_chunks demo_env new_store [[(''text'', PStr ''new'')]])) ''q'' 2) =
     Inr [([(''text'', PStr ''new''), (''document'', PStr ''Unknown'')], 1)]"
    by (simp add: store_defs upt_conv_Cons)
  with stale_store_eval show ?thesis by blast
qed

lemma map_of_filter_other: "map_of (filter (\<lambda>p. fst p \<noteq> key) d) key = None"
  by (induction d) auto

lemma map_of_snoc: "map_of xs key = None \<Longrightarrow> map_of (xs @ [(key, v)]) key = Some v"
  by (simp add: map_add_def)

lemma map_of_move_to_end: "map_of (move_to_end d key) key = map_of d key"
  by (cases "map_of d key") (simp_all add: move_to_end_def map_of_filter_other map_add_def)

lemma lru_get_again: "fst (lru_get (snd (lru_get c key)) key) = fst (lru_get c key)"
  by (cases "map_of (data c) key") (simp_all add: lru_get_def map_of_move_to_end)

lemma map_of_tl_keep:
  assumes "map_of xs key = None"
  shows "map_of (tl (xs @ [(key, v)])) key = Some v \<or> map_of (tl (xs @ [(key, v)])) key = None"
proof (cases xs)
  case Nil
  then show ?thesis by simp
next
  case (Cons x xs')
  with assms have "map_of xs' key = None" by (cases x) (auto split: if_splits)
  with Cons show ?thesis by (simp add: map_add_def)
qed

lemma lru_get_after_set:
  "fst (lru_get (lru_set c key v) key) = Some v \<or> fst (lru_get (lru_set c key v) key) = None"
proof -
  let ?d1 = "AList.update key v (data c)"
  let ?xs = "filter (\<lambda>p. fst p \<noteq> key) ?d1"
  have d1: "map_of ?d1 key = Some v" by (simp add: update_conv')
  then have d2: "move_to_end ?d1 key = ?xs @ [(key, v)]" by (simp add: move_to_end_def)
  have none: "map_of ?xs key = None" by (rule map_of_filter_other)
  have keep: "map_of (?xs @ [(key, v)]) key = Some v" using none by (rule map_of_snoc)
  have "map_of (data (lru_set c key v)) key = Some v \<or> map_of (data (lru_set c key v)) key = None"
    using map_of_tl_keep [OF none, of v] keep
    by (simp add: lru_set_def Let_def d2 del: map_of_append)
  then show ?thesis by (auto simp: lru_get_def)
qed

text \<open>
  Repeating a search: a search made again at once, on the store the first search left,
  returns the same value, be it a result list or the error of a library.
\<close>

theorem search_twice:
  "fst (search env (snd (search env st q k)) q k) = fst (search env st q k)"
proof (cases "index st")
  case None
  then show ?thesis by (simp add: search_def)
next
  case (Some embs)
  show ?thesis
  proof (cases "chunks st = []")
    case True
    with Some show ?thesis by (simp add: search_def)
  next
    case False
    let ?key = "(sha256_hex env q, k)"
    let ?got = "lru_get (cache st) ?key"
    let ?st1 = "st\<lparr>cache := snd ?got\<rparr>"
    have again: "fst (lru_get (cache ?st1) ?key) = fst ?got" by (simp add: lru_get_again)
    have same: "index ?st1 = Some embs" "chunks ?st1 = chunks st" using Some by simp_all
    show ?thesis
    proof (cases "\<exists>r rs. fst ?got = Some (r # rs)")
      case True
      then obtain r rs where hit: "fst ?got = Some (r # rs)" by blast
      then have one: "search env st q k = (Inr (r # rs), ?st1)"
        using Some False by (simp add: search_def Let_def)
      have "fst (search env ?st1 q k) = Inr (r # rs)"
        using same False again hit by (simp add: search_def Let_def)
      with one show ?thesis by simp
    next
      case miss: False
      have miss_case: "(case x of Some (r # rs) \<Rightarrow> f r rs | _ \<Rightarrow> g) = g"
        if "\<not> (\<exists>r rs. x = Some (r # rs))" for x :: "search_result list option" and f g
        using that by (cases x) (auto split: list.splits) 
      show ?thesis
      proof (cases "fresh_results env embs (chunks st) q k")
        case (Inl e)
        then have one: "search env st q k = (Inl e, ?st1)"
          using Some False miss by (simp add: search_def Let_def miss_case)
        have "fst (search env ?st1 q k) = Inl e"
          using same False again miss Inl by (simp add: search_def Let_def miss_case)
        with one show ?thesis by simp
      next
        case (Inr results)
        let ?st2 = "?st1\<lparr>cache := lru_set (cache ?st1) ?key results\<rparr>"
        have one: "search env st q k = (Inr results, ?st2)"
          using Some False miss Inr by (simp add: search_def Let_def miss_case)
        have same2: "index ?st2 = Some embs" "chunks ?st2 = chunks st" using Some by simp_all
        have "fst (lru_get (cache ?st2) ?key) = Some results
              \<or> fst (lru_get (cache ?st2) ?key) = None"
          using lru_get_after_set [of "snd ?got" ?key results] by simp
        then have "fst (search env ?st2 q k) = Inr results"
        proof
          assume c: "fst (lru_get (cache ?st2) ?key) = Some results"
          show ?thesis
          proof (cases results)
            case Nil
            with c same2 False Inr show ?thesis
              by (simp add: search_def Let_def)
          next
            case (Cons r rs)
            with c same2 False show ?thesis
              by (simp add: search_def Let_def)
          qed
        next
          assume c: "fst (lru_get (cache ?st2) ?key) = None"
          with same2 False Inr show ?thesis
            by (simp add: search_def Let_def)
        qed
        with one show ?thesis by simp
      qed
    qed
  qed
qed

text \<open>The rebuild leaves the cache as it is, whatever it holds.\<close>

lemma create_from_chunks_cache: "cache (snd (create_from_chunks env st cs)) = cache st"
  by (simp add: create_from_chunks_def Let_def split: sum.splits)

subsection \<open>search\<close>

lemma collect_results_filter:
  assumes "\<forall>h \<in> set hits. 0 \<le> snd h"
  shows "collect_results cs hits =
           Inr (map (\<lambda>h. (cs ! nat (snd h), fst h))
                  (filter (\<lambda>h. snd h < int (length cs)) hits))"
  using assms
proof (induction hits)
  case Nil
  then show ?case by simp
next
  case (Cons h hits)
  obtain d i where h: "h = (d, i)" by (cases h)
  with Cons show ?case by (simp add: py_index_def)
qed

text \<open>
  What a search past the cache returns.  On a built store with no usable cache entry for the
  query, when the embedding of the query succeeds and the index library answers with the
  scores \<open>D\<close> and the row numbers \<open>I\<close>, none of them negative, \<open>search\<close> returns the
  library's hits with a row number below the number of chunks, in the library's order,
  each with the chunk of its row.  (A negative row number passes the test of line 81 and
  selects a chunk from the end of the list; the theorem leaves that case out.)
\<close>

theorem search_keeps_ranking:
  assumes "index st = Some embs" and "chunks st \<noteq> []"
      and "fst (lru_get (cache st) (sha256_hex env q, k)) = None
           \<or> fst (lru_get (cache st) (sha256_hex env q, k)) = Some []"
      and "encode env [PStr q] = Inr qv" and "normalize env qv = Inr q_emb"
      and "index_search env embs q_emb (min k (int (length (chunks st)))) = Inr (D, I)"
      and "\<forall>i \<in> set I. 0 \<le> i"
  shows "fst (search env st q k) =
           Inr (map (\<lambda>h. (chunks st ! nat (snd h), fst h))
                  (filter (\<lambda>h. snd h < int (length (chunks st))) (zip D I))) \<and>
         subseq (filter (\<lambda>h. snd h < int (length (chunks st))) (zip D I)) (zip D I) \<and>
         (int (length D) \<le> min k (int (length (chunks st))) \<longrightarrow>
            int (length (filter (\<lambda>h. snd h < int (length (chunks st))) (zip D I)))
              \<le> min k (int (length (chunks st)))) \<and>
         (ranked (zip D I) \<longrightarrow>
            ranked (filter (\<lambda>h. snd h < int (length (chunks st))) (zip D I)))"
proof -
  have "\<forall>h \<in> set (zip D I). 0 \<le> snd h"
    using assms(7) by (auto dest: set_zip_rightD)
  from collect_results_filter [OF this]
  have col: "collect_results (chunks st) (zip D I) =
           Inr (map (\<lambda>h. (chunks st ! nat (snd h), fst h))
                  (filter (\<lambda>h. snd h < int (length (chunks st))) (zip D I)))" .
  have res: "fst (search env st q k) =
           Inr (map (\<lambda>h. (chunks st ! nat (snd h), fst h))
                  (filter (\<lambda>h. snd h < int (length (chunks st))) (zip D I)))"
    using assms(3)
  proof
    assume "fst (lru_get (cache st) (sha256_hex env q, k)) = None"
    with assms(1,2,4,5,6) col show ?thesis
      by (simp add: search_def fresh_results_def Let_def)
  next
    assume "fst (lru_get (cache st) (sha256_hex env q, k)) = Some []"
    with assms(1,2,4,5,6) col show ?thesis
      by (simp add: search_def fresh_results_def Let_def)
  qed
  have len: "length (filter (\<lambda>h. snd h < int (length (chunks st))) (zip D I)) \<le> length D"
    by (rule le_trans [OF length_filter_le]) simp
  have rk: "ranked (zip D I) \<longrightarrow>
            ranked (filter (\<lambda>h. snd h < int (length (chunks st))) (zip D I))"
    by (simp add: ranked_def sorted_wrt_filter)
  from res len rk show ?thesis by auto
qed

text \<open>The theorem on the store of three chunks, for \<open>k = 2\<close>.\<close>

theorem search_keeps_ranking_witness:
  "fst (search demo_env abc_store ''q'' 2) =
     Inr [([(''text'', PStr ''abc''), (''page'', PInt 1), (''document'', PStr ''Unknown'')], 1),
          ([(''text'', PStr ''defgh''), (''page'', PInt 2), (''document'', PStr ''Unknown'')],
           9 / 10)] \<and>
   ranked (zip [1, 9 / 10] [0, 1])"
proof -
  have st: "index abc_store = Some [(), (), ()]"
    "chunks abc_store =
      [[(''text'', PStr ''abc''), (''page'', PInt 1), (''document'', PStr ''Unknown'')],
       [(''text'', PStr ''defgh''), (''page'', PInt 2), (''document'', PStr ''Unknown'')],
       [(''text'', PStr ''ij''), (''page'', PInt 3), (''doc'', PStr ''x.pdf''),
        (''document'', PStr ''x.pdf'')]]"
    "cache abc_store = new_cache 256"
    by (simp_all add: abc_store_def store_defs)
  have h1: "chunks abc_store \<noteq> []" by (simp add: st)
  have h2: "fst (lru_get (cache abc_store) (sha256_hex demo_env ''q'', 2)) = None
           \<or> fst (lru_get (cache abc_store) (sha256_hex demo_env ''q'', 2)) = Some []"
    by (simp add: st lru_get_def new_cache_def)
  have h3: "encode demo_env [PStr ''q''] = Inr [()]" by (simp add: demo_env_def)
  have h4: "normalize demo_env [()] = Inr [()]" by (simp add: demo_env_def)
  have h5: "index_search demo_env [(), (), ()] [()] (min 2 (int (length (chunks abc_store))))
              = Inr ([1, 9 / 10], [0, 1])"
    by (simp add: st demo_env_def upt_conv_Cons)
  have h6: "\<forall>i \<in> set [0, 1::int]. 0 \<le> i" by simp
  have r: "ranked (zip [1, 9 / 10] [0, 1])" by (simp add: ranked_def)
  from search_keeps_ranking [OF st(1) h1 h2 h3 h4 h5 h6] r show ?thesis
    by (simp add: st)
qed

text \<open>
  Claim C3 (at most \<open>min(k, n)\<close> results on every built index) fails on the code, through the
  cache that a rebuild does not clear: the rebuilt store is built, it holds one chunk, and
  the search for \<open>q\<close> with \<open>k = 2\<close> returns the two results cached before the rebuild, more
  than \<open>min(2, 1)\<close>.
\<close>

theorem stale_search_exceeds_bound:
  "index stale_store = Some [()] \<and> length (chunks stale_store) = 1 \<and>
   (\<exists>rs. fst (search demo_env stale_store ''q'' 2) = Inr rs \<and> length rs = 2 \<and>
         min 2 (int (length (chunks stale_store))) = 1)"
  using stale_store_eval by simp

subsection \<open>get\_context\_for\_query\<close>

lemma py_slice_take: "0 \<le> b \<Longrightarrow> py_slice xs 0 b = take (nat b) xs"
  by (simp add: py_slice_def py_bound_def min_def)

lemma clip_fits: "cur + int (length t) \<le> B \<Longrightarrow> clip B cur t = t"
  by (simp add: clip_def)

lemma clip_bound:
  assumes "cur \<le> B"
  shows "cur + int (length (clip B cur t)) \<le> B + 3"
proof (cases "cur + int (length t) > B")
  case False
  then show ?thesis by (simp add: clip_def)
next
  case True
  with assms show ?thesis
    by (auto simp: clip_def Let_def py_slice_take marker_def min_def)
qed

lemma clip_short:
  assumes "cur + int (length (clip B cur t)) < B"
  shows "clip B cur t = t \<and> cur + int (length t) < B"
proof (cases "cur + int (length t) > B")
  case False
  with assms show ?thesis by (simp add: clip_def)
next
  case True
  show ?thesis
  proof (cases "cur \<le> B")
    case True
    with \<open>cur + int (length t) > B\<close> assms show ?thesis
      by (auto simp: clip_def Let_def py_slice_take min_def split: if_splits)
  next
    case False
    with \<open>cur + int (length t) > B\<close> assms show ?thesis
      by (auto simp: clip_def Let_def py_slice_take max_def split: if_splits)
  qed
qed

lemma text_of_item: "dict_item c ''text'' = Inr (PStr t) \<Longrightarrow> text_of c = t"
  by (auto simp: dict_item_def text_of_def dict_get_def split: option.splits)

lemma assemble_shape:
  assumes "assemble rs B ps ss cur = Inr (parts, srcs, cur')" and "rs \<noteq> []"
  shows "\<exists>pre r post. rs = pre @ r # post \<and>
           parts = ps @ map whole pre
                     @ [label (fst r) @ clip B (cur + texts_len pre) (text_of (fst r))] \<and>
           srcs = ss @ map cite (pre @ [r]) \<and>
           cur' = cur + texts_len pre
                    + int (length (clip B (cur + texts_len pre) (text_of (fst r)))) \<and>
           (pre \<noteq> [] \<longrightarrow> cur + texts_len pre < B) \<and>
           (post \<noteq> [] \<longrightarrow> B \<le> cur')"
  using assms
proof (induction rs arbitrary: ps ss cur)
  case Nil
  then show ?case by simp
next
  case (Cons r rest)
  from Cons.prems(1) obtain t where item: "dict_item (fst r) ''text'' = Inr (PStr t)"
    by (auto split: sum.splits pyval.splits)
  then have t: "text_of (fst r) = t" by (rule text_of_item)
  let ?add = "clip B cur t"
  let ?cur1 = "cur + int (length ?add)"
  show ?case
  proof (cases "B \<le> ?cur1")
    case True
    with Cons.prems(1) item
    have "parts = ps @ [label (fst r) @ ?add]" "srcs = ss @ [cite r]" "cur' = ?cur1"
      by (simp_all add: Let_def)
    with True t have "r # rest = [] @ r # rest \<and>
           parts = ps @ map whole []
                     @ [label (fst r) @ clip B (cur + texts_len []) (text_of (fst r))] \<and>
           srcs = ss @ map cite ([] @ [r]) \<and>
           cur' = cur + texts_len []
                    + int (length (clip B (cur + texts_len []) (text_of (fst r)))) \<and>
           (([]::search_result list) \<noteq> [] \<longrightarrow> cur + texts_len [] < B) \<and>
           (rest \<noteq> [] \<longrightarrow> B \<le> cur')"
      by (simp add: texts_len_def)
    then show ?thesis by blast
  next
    case False
    then have short: "?cur1 < B" by simp
    from clip_short [OF short] have add: "?add = t" and fit: "cur + int (length t) < B"
      by simp_all
    from Cons.prems(1) item False add
    have rec: "assemble rest B (ps @ [whole r]) (ss @ [cite r]) (cur + int (length t))
                 = Inr (parts, srcs, cur')"
      by (simp add: Let_def whole_def t)
    show ?thesis
    proof (cases rest)
      case Nil
      with rec have "parts = ps @ [whole r]" "srcs = ss @ [cite r]"
          "cur' = cur + int (length t)"
        by simp_all
      with Nil add t have "r # rest = [] @ r # [] \<and>
           parts = ps @ map whole []
                     @ [label (fst r) @ clip B (cur + texts_len []) (text_of (fst r))] \<and>
           srcs = ss @ map cite ([] @ [r]) \<and>
           cur' = cur + texts_len []
                    + int (length (clip B (cur + texts_len []) (text_of (fst r)))) \<and>
           (([]::search_result list) \<noteq> [] \<longrightarrow> cur + texts_len [] < B) \<and>
           (([]::search_result list) \<noteq> [] \<longrightarrow> B \<le> cur')"
        by (simp add: texts_len_def whole_def)
      then show ?thesis by blast
    next
      case (Cons r2 rest2)
      then have "rest \<noteq> []" by simp
      from Cons.IH [OF rec this] obtain pre q post where
        IH: "rest = pre @ q # post"
          "parts = (ps @ [whole r]) @ map whole pre
             @ [label (fst q) @ clip B (cur + int (length t) + texts_len pre) (text_of (fst q))]"
          "srcs = (ss @ [cite r]) @ map cite (pre @ [q])"
          "cur' = cur + int (length t) + texts_len pre
             + int (length (clip B (cur + int (length t) + texts_len pre) (text_of (fst q))))"
          "pre \<noteq> [] \<longrightarrow> cur + int (length t) + texts_len pre < B"
          "post \<noteq> [] \<longrightarrow> B \<le> cur'"
        by blast
      have tl: "texts_len (r # pre) = int (length t) + texts_len pre"
        by (simp add: texts_len_def t)
      then have sum: "cur + texts_len (r # pre) = cur + int (length t) + texts_len pre"
        by simp
      have "r # rest = (r # pre) @ q # post \<and>
           parts = ps @ map whole (r # pre)
                     @ [label (fst q) @ clip B (cur + texts_len (r # pre)) (text_of (fst q))] \<and>
           srcs = ss @ map cite ((r # pre) @ [q]) \<and>
           cur' = cur + texts_len (r # pre)
                    + int (length (clip B (cur + texts_len (r # pre)) (text_of (fst q)))) \<and>
           (r # pre \<noteq> [] \<longrightarrow> cur + texts_len (r # pre) < B) \<and>
           (post \<noteq> [] \<longrightarrow> B \<le> cur')"
        unfolding sum using IH fit
        by (cases "pre = []") (simp_all add: texts_len_def)
      then show ?thesis by blast
    qed
  qed
qed

lemma length_join:
  "ps \<noteq> [] \<Longrightarrow>
   int (length (join sep ps)) = (\<Sum>p\<leftarrow>ps. int (length p)) + int (length sep) * (int (length ps) - 1)"
  by (induction sep ps rule: join.induct) (simp_all add: algebra_simps)

lemma cite_fields:
  "document (cite r) = dict_get (fst r) ''document'' (PStr ''Unknown'') \<and>
   page (cite r) = dict_get (fst r) ''page'' PNone \<and>
   cit_text (cite r) = take 800 (text_of (fst r)) \<and>
   length (cit_text (cite r)) \<le> 800 \<and>
   relevance_score (cite r) = snd r"
  by (simp add: cite_def py_slice_take)

lemma abc_search: "fst (search demo_env abc_store ''q'' 3) = Inr abc_results"
  by (simp add: abc_store_def abc_results_def store_defs upt_conv_Cons)

lemma abc_context:
  "build_context abc_results 6 =
     Inr (''[Unknown - Page 1]'' @ [newline] @ ''abc'' @ separator
            @ ''[Unknown - Page 2]'' @ [newline] @ ''def'',
          [cite (abc_results ! 0), cite (abc_results ! 1)])"
  by (simp add: build_context_def abc_results_def dict_item_def dict_get_def clip_def label_def
      py_str_def py_slice_def py_bound_def marker_def digit_def Let_def)

text \<open>
  What the budget bounds.  For a positive budget \<open>B\<close>, the context built from a non-empty
  result list consists of the parts of a prefix of the results: every included result but
  the last contributes its label and its whole text, and these texts together stay below
  \<open>B\<close>; the last included result contributes its label and its text clipped to the space
  that remains.  The texts, as included, have at most \<open>B\<close> plus the length of the marker
  characters in total; the length of the context is that of the texts, the labels and the
  separators together.
\<close>

theorem context_budget:
  assumes "0 < B"
      and "search env st q k = (Inr results, st1)"
      and "build_context results B = Inr (ctx, srcs)"
  shows "get_context_for_query env st q k B = (Inr (ctx, srcs), st1) \<and>
         (results = [] \<and> ctx = [] \<or>
          (\<exists>pre r post.
             results = pre @ r # post \<and>
             ctx = join separator
                     (map whole pre @ [label (fst r) @ clip B (texts_len pre) (text_of (fst r))]) \<and>
             (pre \<noteq> [] \<longrightarrow> texts_len pre < B) \<and>
             (post \<noteq> [] \<longrightarrow>
                B \<le> texts_len pre + int (length (clip B (texts_len pre) (text_of (fst r))))) \<and>
             texts_len pre + int (length (clip B (texts_len pre) (text_of (fst r))))
               \<le> B + int (length marker) \<and>
             int (length ctx) =
               texts_len pre + int (length (clip B (texts_len pre) (text_of (fst r))))
                 + labels_len (pre @ [r]) + int (length separator) * int (length pre)))"
proof -
  have first: "get_context_for_query env st q k B = (Inr (ctx, srcs), st1)"
    using assms(2,3) by (simp add: get_context_for_query_def)
  show ?thesis
  proof (cases "results = []")
    case True
    with assms(3) first show ?thesis by (simp add: build_context_def)
  next
    case False
    with assms(3) obtain parts cur' where
      run: "assemble results B [] [] 0 = Inr (parts, srcs, cur')"
      and ctx: "ctx = join separator parts"
      by (auto simp: build_context_def split: sum.splits)
    from assemble_shape [OF run False] obtain pre r post where
      raw: "results = pre @ r # post \<and>
           parts = [] @ map whole pre
                     @ [label (fst r) @ clip B (0 + texts_len pre) (text_of (fst r))] \<and>
           srcs = [] @ map cite (pre @ [r]) \<and>
           cur' = 0 + texts_len pre
                    + int (length (clip B (0 + texts_len pre) (text_of (fst r)))) \<and>
           (pre \<noteq> [] \<longrightarrow> 0 + texts_len pre < B) \<and>
           (post \<noteq> [] \<longrightarrow> B \<le> cur')"
      by blast
    note raw2 = raw [unfolded append_Nil add_0]
    from raw2 have shape: "results = pre @ r # post"
        "parts = map whole pre @ [label (fst r) @ clip B (texts_len pre) (text_of (fst r))]"
        "cur' = texts_len pre + int (length (clip B (texts_len pre) (text_of (fst r))))"
        "pre \<noteq> [] \<longrightarrow> texts_len pre < B"
        "post \<noteq> [] \<longrightarrow> B \<le> cur'"
      by blast+
    from shape(4) assms(1) have "texts_len pre \<le> B"
      by (cases "pre = []") (simp_all add: texts_len_def)
    from clip_bound [OF this]
    have bound: "texts_len pre + int (length (clip B (texts_len pre) (text_of (fst r))))
                   \<le> B + int (length marker)"
      by (simp add: marker_def)
    have "parts \<noteq> []" using shape(2) by simp
    from length_join [OF this, of separator]
    have len: "int (length ctx) =
        texts_len pre + int (length (clip B (texts_len pre) (text_of (fst r))))
          + labels_len (pre @ [r]) + int (length separator) * int (length pre)"
      unfolding ctx shape(2)
      by (simp add: whole_def texts_len_def labels_len_def sum_list_addf o_def algebra_simps)
    have "results = pre @ r # post \<and>
             ctx = join separator
                     (map whole pre @ [label (fst r) @ clip B (texts_len pre) (text_of (fst r))]) \<and>
             (pre \<noteq> [] \<longrightarrow> texts_len pre < B) \<and>
             (post \<noteq> [] \<longrightarrow>
                B \<le> texts_len pre + int (length (clip B (texts_len pre) (text_of (fst r))))) \<and>
             texts_len pre + int (length (clip B (texts_len pre) (text_of (fst r))))
               \<le> B + int (length marker) \<and>
             int (length ctx) =
               texts_len pre + int (length (clip B (texts_len pre) (text_of (fst r))))
                 + labels_len (pre @ [r]) + int (length separator) * int (length pre)"
      using shape(1) ctx [unfolded shape(2)] shape(4) shape(5) [unfolded shape(3)] bound len
      by (intro conjI)
    then have ex: "\<exists>pre r post. results = pre @ r # post \<and>
             ctx = join separator
                     (map whole pre @ [label (fst r) @ clip B (texts_len pre) (text_of (fst r))]) \<and>
             (pre \<noteq> [] \<longrightarrow> texts_len pre < B) \<and>
             (post \<noteq> [] \<longrightarrow>
                B \<le> texts_len pre + int (length (clip B (texts_len pre) (text_of (fst r))))) \<and>
             texts_len pre + int (length (clip B (texts_len pre) (text_of (fst r))))
               \<le> B + int (length marker) \<and>
             int (length ctx) =
               texts_len pre + int (length (clip B (texts_len pre) (text_of (fst r))))
                 + labels_len (pre @ [r]) + int (length separator) * int (length pre)"
      by (intro exI)
    show ?thesis
    proof (intro conjI disjI2)
      show "get_context_for_query env st q k B = (Inr (ctx, srcs), st1)" by (rule first)
      show "\<exists>pre r post. results = pre @ r # post \<and>
             ctx = join separator
                     (map whole pre @ [label (fst r) @ clip B (texts_len pre) (text_of (fst r))]) \<and>
             (pre \<noteq> [] \<longrightarrow> texts_len pre < B) \<and>
             (post \<noteq> [] \<longrightarrow>
                B \<le> texts_len pre + int (length (clip B (texts_len pre) (text_of (fst r))))) \<and>
             texts_len pre + int (length (clip B (texts_len pre) (text_of (fst r))))
               \<le> B + int (length marker) \<and>
             int (length ctx) =
               texts_len pre + int (length (clip B (texts_len pre) (text_of (fst r))))
                 + labels_len (pre @ [r]) + int (length separator) * int (length pre)"
        by (rule ex)
    qed
  qed
qed

text \<open>The theorem on the store of three chunks, with \<open>k = 3\<close> and a budget of 6.\<close>

theorem context_budget_witness:
  "(0::int) < 6 \<and>
   fst (get_context_for_query demo_env abc_store ''q'' 3 6) =
     Inr (''[Unknown - Page 1]'' @ [newline] @ ''abc'' @ separator
            @ ''[Unknown - Page 2]'' @ [newline] @ ''def'',
          [cite (abc_results ! 0), cite (abc_results ! 1)])"
proof -
  have s: "search demo_env abc_store ''q'' 3
             = (Inr abc_results, snd (search demo_env abc_store ''q'' 3))"
    using abc_search by (metis prod.collapse)
  from context_budget [OF _ s abc_context] show ?thesis by simp
qed

text \<open>
  Claim C1 (the context is at most \<open>B\<close> plus one marker long) fails on the code: only the
  chunk texts are counted in \<open>cur_len\<close>, the labels and the separators are added without
  being counted.  On the store of three chunks with \<open>k = 1\<close> and a budget of 3 the one result
  has the text \<open>abc\<close>, and the context is its label and that text, 22 characters, where 3
  plus the length of the marker is 6.
\<close>

theorem context_exceeds_budget:
  "fst (get_context_for_query demo_env abc_store ''q'' 1 3) =
     Inr (''[Unknown - Page 1]'' @ [newline] @ ''abc'',
          [\<lparr>document = PStr ''Unknown'', page = PInt 1, cit_text = ''abc'',
            relevance_score = 1\<rparr>]) \<and>
   length (''[Unknown - Page 1]'' @ [newline] @ ''abc'') = 22 \<and>
   3 + length marker = 6"
  by (simp add: get_context_for_query_def abc_store_def store_defs
        upt_conv_Cons build_context_def clip_def label_def py_str_def digit_def cite_def
        text_of_def py_slice_def py_bound_def marker_def split: prod.splits)

lemma clip_nonempty:
  assumes "cur < B" and "t \<noteq> []"
  shows "clip B cur t \<noteq> []"
proof (cases "cur + int (length t) > B")
  case False
  with assms show ?thesis by (simp add: clip_def)
next
  case True
  from assms(1) have "0 < nat (B - cur)" by simp
  with assms(2) have "take (nat (B - cur)) t \<noteq> []" by (cases t) auto
  with True assms(1) show ?thesis
    by (simp add: clip_def Let_def py_slice_take)
qed

text \<open>
  Claim C9.  The context parts and the citations are made from the same results, one of
  each per result: the results split into those included whole, the last included one and
  those dropped.  The context is the join of the parts of the included results, each the
  result's label followed by its text, whole for all but the last and clipped to the
  remaining budget for the last (which for a positive budget keeps at least one character of
  a text that is not empty); the citations are those of the same included results, in the
  same order; the dropped results give neither a part nor a citation.  A citation carries
  the chunk's document (\<open>Unknown\<close> when it has none), its page, the first 800 characters of
  its untruncated text and the score of the result unchanged.
\<close>

theorem one_citation_per_part:
  assumes "search env st q k = (Inr results, st1)"
      and "build_context results B = Inr (ctx, srcs)"
  shows "get_context_for_query env st q k B = (Inr (ctx, srcs), st1) \<and>
         (results = [] \<and> ctx = [] \<and> srcs = [] \<or>
          (\<exists>pre r post.
             results = pre @ r # post \<and>
             ctx = join separator
                     (map whole pre @ [label (fst r) @ clip B (texts_len pre) (text_of (fst r))]) \<and>
             srcs = map cite (pre @ [r]) \<and>
             (0 < B \<and> text_of (fst r) \<noteq> []
                \<longrightarrow> clip B (texts_len pre) (text_of (fst r)) \<noteq> []))) \<and>
         (\<forall>c \<in> set srcs. length (cit_text c) \<le> 800) \<and>
         (\<forall>r. document (cite r) = dict_get (fst r) ''document'' (PStr ''Unknown'') \<and>
              page (cite r) = dict_get (fst r) ''page'' PNone \<and>
              cit_text (cite r) = take 800 (text_of (fst r)) \<and>
              relevance_score (cite r) = snd r)"
proof -
  have first: "get_context_for_query env st q k B = (Inr (ctx, srcs), st1)"
    using assms by (simp add: get_context_for_query_def)
  have fields: "\<forall>r. document (cite r) = dict_get (fst r) ''document'' (PStr ''Unknown'') \<and>
              page (cite r) = dict_get (fst r) ''page'' PNone \<and>
              cit_text (cite r) = take 800 (text_of (fst r)) \<and>
              relevance_score (cite r) = snd r"
    using cite_fields by blast
  have shape: "results = [] \<and> ctx = [] \<and> srcs = [] \<or>
          (\<exists>pre r post.
             results = pre @ r # post \<and>
             ctx = join separator
                     (map whole pre @ [label (fst r) @ clip B (texts_len pre) (text_of (fst r))]) \<and>
             srcs = map cite (pre @ [r]) \<and>
             (0 < B \<and> text_of (fst r) \<noteq> []
                \<longrightarrow> clip B (texts_len pre) (text_of (fst r)) \<noteq> []))"
  proof (cases "results = []")
    case True
    with assms(2) show ?thesis by (simp add: build_context_def)
  next
    case False
    with assms(2) obtain parts cur' where
      run: "assemble results B [] [] 0 = Inr (parts, srcs, cur')"
      and ctx: "ctx = join separator parts"
      by (auto simp: build_context_def split: sum.splits)
    from assemble_shape [OF run False] obtain pre r post where
      raw: "results = pre @ r # post \<and>
           parts = [] @ map whole pre
                     @ [label (fst r) @ clip B (0 + texts_len pre) (text_of (fst r))] \<and>
           srcs = [] @ map cite (pre @ [r]) \<and>
           cur' = 0 + texts_len pre
                    + int (length (clip B (0 + texts_len pre) (text_of (fst r)))) \<and>
           (pre \<noteq> [] \<longrightarrow> 0 + texts_len pre < B) \<and>
           (post \<noteq> [] \<longrightarrow> B \<le> cur')"
      by blast
    note raw2 = raw [unfolded append_Nil add_0]
    from raw2 have res: "results = pre @ r # post"
      and parts: "parts = map whole pre
                     @ [label (fst r) @ clip B (texts_len pre) (text_of (fst r))]"
      and srcs: "srcs = map cite (pre @ [r])"
      and below: "pre \<noteq> [] \<longrightarrow> texts_len pre < B"
      by blast+
    have some: "0 < B \<and> text_of (fst r) \<noteq> []
                \<longrightarrow> clip B (texts_len pre) (text_of (fst r)) \<noteq> []"
    proof
      assume a: "0 < B \<and> text_of (fst r) \<noteq> []"
      with below have "texts_len pre < B"
        by (cases "pre = []") (simp_all add: texts_len_def)
      with a show "clip B (texts_len pre) (text_of (fst r)) \<noteq> []"
        by (simp add: clip_nonempty)
    qed
    have "results = pre @ r # post \<and>
             ctx = join separator
                     (map whole pre @ [label (fst r) @ clip B (texts_len pre) (text_of (fst r))]) \<and>
             srcs = map cite (pre @ [r]) \<and>
             (0 < B \<and> text_of (fst r) \<noteq> []
                \<longrightarrow> clip B (texts_len pre) (text_of (fst r)) \<noteq> [])"
      using res ctx [unfolded parts] srcs some by (intro conjI)
    then have "\<exists>pre r post.
             results = pre @ r # post \<and>
             ctx = join separator
                     (map whole pre @ [label (fst r) @ clip B (texts_len pre) (text_of (fst r))]) \<and>
             srcs = map cite (pre @ [r]) \<and>
             (0 < B \<and> text_of (fst r) \<noteq> []
                \<longrightarrow> clip B (texts_len pre) (text_of (fst r)) \<noteq> [])"
      by (intro exI)
    then show ?thesis by (rule disjI2)
  qed
  have capped: "\<forall>c \<in> set srcs. length (cit_text c) \<le> 800"
  proof (cases "results = []")
    case True
    with assms(2) show ?thesis by (simp add: build_context_def)
  next
    case False
    with shape obtain pre r post where "srcs = map cite (pre @ [r])" by blast
    then show ?thesis using cite_fields by auto
  qed
  from first shape capped fields show ?thesis by (intro conjI)
qed

text \<open>
  The theorem on the store of three chunks with \<open>k = 3\<close>: with a budget of 6 the second text
  is clipped and the third result is dropped; with a budget of 100 all three are included
  whole.
\<close>

theorem one_citation_per_part_witness:
  "fst (get_context_for_query demo_env abc_store ''q'' 3 6) =
     Inr (''[Unknown - Page 1]'' @ [newline] @ ''abc'' @ separator
            @ ''[Unknown - Page 2]'' @ [newline] @ ''def'',
          [\<lparr>document = PStr ''Unknown'', page = PInt 1, cit_text = ''abc'', relevance_score = 1\<rparr>,
           \<lparr>document = PStr ''Unknown'', page = PInt 2, cit_text = ''defgh'',
            relevance_score = 9 / 10\<rparr>]) \<and>
   fst (get_context_for_query demo_env abc_store ''q'' 3 100) =
     Inr (''[Unknown - Page 1]'' @ [newline] @ ''abc'' @ separator
            @ ''[Unknown - Page 2]'' @ [newline] @ ''defgh'' @ separator
            @ ''[x.pdf - Page 3]'' @ [newline] @ ''ij'',
          [\<lparr>document = PStr ''Unknown'', page = PInt 1, cit_text = ''abc'', relevance_score = 1\<rparr>,
           \<lparr>document = PStr ''Unknown'', page = PInt 2, cit_text = ''defgh'',
            relevance_score = 9 / 10\<rparr>,
           \<lparr>document = PStr ''x.pdf'', page = PInt 3, cit_text = ''ij'',
            relevance_score = 8 / 10\<rparr>])"
proof -
  have s: "search demo_env abc_store ''q'' 3
             = (Inr abc_results, snd (search demo_env abc_store ''q'' 3))"
    using abc_search by (metis prod.collapse)
  have c0: "cite (abc_results ! 0) =
      \<lparr>document = PStr ''Unknown'', page = PInt 1, cit_text = ''abc'', relevance_score = 1\<rparr>"
    by (simp add: abc_results_def cite_def dict_get_def text_of_def py_slice_take)
  have c1: "cite (abc_results ! 1) =
      \<lparr>document = PStr ''Unknown'', page = PInt 2, cit_text = ''defgh'',
        relevance_score = 9 / 10\<rparr>"
    by (simp add: abc_results_def cite_def dict_get_def text_of_def py_slice_take)
  have c2: "cite (abc_results ! 2) =
      \<lparr>document = PStr ''x.pdf'', page = PInt 3, cit_text = ''ij'',
        relevance_score = 8 / 10\<rparr>"
    by (simp add: abc_results_def cite_def dict_get_def text_of_def py_slice_take)
  have wide: "build_context abc_results 100 =
     Inr (''[Unknown - Page 1]'' @ [newline] @ ''abc'' @ separator
            @ ''[Unknown - Page 2]'' @ [newline] @ ''defgh'' @ separator
            @ ''[x.pdf - Page 3]'' @ [newline] @ ''ij'',
          [cite (abc_results ! 0), cite (abc_results ! 1), cite (abc_results ! 2)])"
    by (simp add: build_context_def abc_results_def dict_item_def dict_get_def clip_def label_def
        py_str_def py_slice_def py_bound_def marker_def digit_def Let_def)
  have g: "get_context_for_query demo_env abc_store ''q'' 3 6 =
     (Inr (''[Unknown - Page 1]'' @ [newline] @ ''abc'' @ separator
            @ ''[Unknown - Page 2]'' @ [newline] @ ''def'',
          [cite (abc_results ! 0), cite (abc_results ! 1)]),
      snd (search demo_env abc_store ''q'' 3))"
    by (rule conjunct1 [OF one_citation_per_part [OF s abc_context]])
  have h: "get_context_for_query demo_env abc_store ''q'' 3 100 =
     (Inr (''[Unknown - Page 1]'' @ [newline] @ ''abc'' @ separator
            @ ''[Unknown - Page 2]'' @ [newline] @ ''defgh'' @ separator
            @ ''[x.pdf - Page 3]'' @ [newline] @ ''ij'',
          [cite (abc_results ! 0), cite (abc_results ! 1), cite (abc_results ! 2)]),
      snd (search demo_env abc_store ''q'' 3))"
    by (rule conjunct1 [OF one_citation_per_part [OF s wide]])
  show ?thesis unfolding g h c0 c1 c2 by simp
qed

end
